theory Spec2Isabelle
  imports
    Complex_Main
    "HOL-Library.Sublist"
    "HOL-Library.Char_ord"
    "HOL-Library.List_Lexorder"
begin

section \<open>Paths\<close>

text \<open>
  A \<open>pathlib.Path\<close> is modelled by its \<open>parts\<close>: the list of its segments, the
  anchor first. Python orders paths by comparing these lists lexicographically, each
  segment by code points; on UTF-8 bytes that is the order of \<open>char list list\<close>.
  \<open>p.is_relative_to(r)\<close> holds when \<open>r\<close> equals \<open>p\<close> or is one of its parents, that
  is when the parts of \<open>r\<close> are a prefix of the parts of \<open>p\<close>.
\<close>

type_synonym path = "string list"

definition is_relative_to :: "path \<Rightarrow> path \<Rightarrow> bool" where
  "is_relative_to p r = prefix r p"

text \<open>
  \<open>normalize_paths\<close> maps \<open>Path(p).resolve()\<close> over the configured strings. Resolving
  asks the file system; the resolver is a parameter.
\<close>

definition normalize_paths :: "(string \<Rightarrow> path) \<Rightarrow> string list \<Rightarrow> path list" where
  "normalize_paths resolve paths = map resolve paths"

text \<open>
  \<open>deduplicate_parent_paths\<close>: the loop over \<open>sorted(paths)\<close>, with the list \<open>roots\<close>
  it appends to as the accumulator.
\<close>

fun dedup_loop :: "path list \<Rightarrow> path list \<Rightarrow> path list" where
  "dedup_loop roots [] = roots"
| "dedup_loop roots (p # ps) =
     (if \<not> list_ex (\<lambda>r. is_relative_to p r) roots
      then dedup_loop (roots @ [p]) ps
      else dedup_loop roots ps)"

definition deduplicate_parent_paths :: "path list \<Rightarrow> path list" where
  "deduplicate_parent_paths paths = dedup_loop [] (sort paths)"

text \<open>The path-tree descendants of a root, the root itself included.\<close>

definition descendants :: "path \<Rightarrow> path set" where
  "descendants r = {x. is_relative_to x r}"

text \<open>No two distinct members of a list of roots are related in the path tree.\<close>

definition antichain :: "path list \<Rightarrow> bool" where
  "antichain rs =
     (distinct rs \<and> (\<forall>p \<in> set rs. \<forall>q \<in> set rs. p \<noteq> q \<longrightarrow> \<not> is_relative_to p q))"

text \<open>A resolver for the example of the specification: three absolute paths, no symlinks.\<close>

definition example_resolve :: "string \<Rightarrow> path" where
  "example_resolve s =
     (if s = ''/data/a'' then [''/'', ''data'', ''a'']
      else if s = ''/data/a/sub'' then [''/'', ''data'', ''a'', ''sub'']
      else if s = ''/data/b'' then [''/'', ''data'', ''b'']
      else [''/''])"


section \<open>Strings and errors\<close>

text \<open>Python's \<open>sep.join(xs)\<close>.\<close>

fun join :: "string \<Rightarrow> string list \<Rightarrow> string" where
  "join sep [] = []"
| "join sep [x] = x"
| "join sep (x # y # ys) = x @ sep @ join sep (y # ys)"

text \<open>
  \<open>str(path)\<close> of an absolute POSIX path: the anchor, then the other parts joined by
  \<open>/\<close>.
\<close>

definition path_str :: "path \<Rightarrow> string" where
  "path_str p =
     (case p of
        [] \<Rightarrow> ''.''
      | a # rest \<Rightarrow> if a = ''/'' \<or> a = ''//'' then a @ join ''/'' rest else join ''/'' (a # rest))"

text \<open>
  The exceptions of the modelled code: the \<open>RuntimeError\<close> that \<open>scan_task\<close> raises,
  the \<open>KeyError\<close> of a missing configuration key, and whatever the object-store client
  raises. \<open>error_message\<close> is \<open>str(exc)\<close>.
\<close>

datatype error = RuntimeError string | KeyError string | OssError string

fun error_message :: "error \<Rightarrow> string" where
  "error_message (RuntimeError msg) = msg"
| "error_message (KeyError k) = [CHR 0x27] @ k @ [CHR 0x27]"
| "error_message (OssError msg) = msg"

text \<open>The bytes of the message prefix of \<open>scan_task\<close> (six CJK characters in UTF-8).\<close>

definition missing_path_prefix :: string where
  "missing_path_prefix =
     map char_of [232, 183, 175, 229, 190, 132, 228, 184, 141, 229, 173, 152,
       229, 156, 168, 239, 188, 154 :: nat]"

text \<open>\<open>d.get(key, default)\<close> on an optional configuration field.\<close>

definition dict_get :: "'a option \<Rightarrow> 'a \<Rightarrow> 'a" where
  "dict_get v dflt = (case v of None \<Rightarrow> dflt | Some x \<Rightarrow> x)"

section \<open>Configuration, environment and log\<close>

text \<open>
  The fields of \<open>config.json\<close> that the pipeline reads. A field read with \<open>.get\<close> is
  optional; the keys of the \<open>oss\<close> section read with \<open>[...]\<close> are optional too, since
  their absence is a \<open>KeyError\<close> inside the \<open>try\<close> of the upload.
\<close>

record oss_config =
  oss_enabled :: "bool option"
  upload_interval_days :: "real option"
  access_key_id :: "string option"
  access_key_secret :: "string option"
  oss_region :: "string option"
  oss_endpoint :: "string option"
  oss_prefix :: "string option"
  latest_object :: "string option"
  oss_bucket :: "string option"

record config =
  cfg_paths :: "string list"
  ignore_missing_path :: "bool option"
  follow_symlinks :: "bool option"
  latest_filename :: string
  retention_days :: "int option"
  oss :: "oss_config option"

text \<open>
  A scanned tree. An entry of a directory is its name, whether the entry itself is a
  symbolic link, and what \<open>stat\<close> sees there (for a link: its target).
\<close>

datatype fs_node = File_node | Dir_node "(string \<times> bool \<times> fs_node) list"

text \<open>
  An entry of the output directory: name, \<open>is_file()\<close>, the modification time as
  \<open>datetime.fromtimestamp\<close> gives it (microseconds on the naive local time line), and
  the bytes.
\<close>

record out_entry =
  e_name :: string
  e_is_file :: bool
  e_mtime :: int
  e_content :: string

text \<open>
  The upload marker as \<open>should_upload_to_oss\<close> reads it: no file, a file whose reading
  or parsing raises \<open>ValueError\<close> or \<open>OSError\<close>, or a time stamp. Times are exact
  reals; the rounding and the special values of floats are not modelled.
\<close>

datatype marker_state = Marker_absent | Marker_unreadable | Marker_time real

datatype put_outcome = Put_ok string | Put_raises string

datatype event =
    Info_scan_started
  | Info_final_roots "path list"
  | Warning_missing_root string
  | Info_scan_done nat string
  | Info_cleanup_done nat int
  | Info_no_retention
  | Warning_latest_missing
  | Info_upload_not_due
  | Info_uploaded string string
  | Exception_upload_failed error
  | Exception_action_failed string error

text \<open>
  Everything outside the process that the pipeline reads or writes: the resolver and the
  trees behind the configured paths, the output directory, the marker, the clocks
  (\<open>datetime.now()\<close>, \<open>time.time()\<close>, \<open>time.strftime\<close>; one instant for a whole
  run), the object store and the log. Building the store's client from the two
  credentials, the region and the endpoint either raises (\<open>Some\<close> of the message) or
  succeeds; a put of \<open>(bucket, key, bytes)\<close> raises or returns a request id. Failures of
  the local file system calls are not modelled.
\<close>

record world =
  w_resolve :: "string \<Rightarrow> path"
  w_lookup :: "path \<Rightarrow> fs_node option"
  w_output_dir :: "out_entry list"
  w_marker :: marker_state
  w_now_local :: int
  w_now_epoch :: real
  w_timestamp :: string
  w_oss_client :: "string \<Rightarrow> string \<Rightarrow> string \<Rightarrow> string option \<Rightarrow> string option"
  w_oss_put :: "string \<Rightarrow> string \<Rightarrow> string \<Rightarrow> put_outcome"
  w_log :: "event list"

definition logging :: "event \<Rightarrow> world \<Rightarrow> world" where
  "logging ev w = w\<lparr>w_log := w_log w @ [ev]\<rparr>"

section \<open>TreeScanner\<close>

record scan_record =
  r_type :: string
  r_root_path :: string
  r_full_path :: string
  r_name :: string

text \<open>The filter of \<open>scan_root\<close>: \<open>d.startswith(".") or d == "@eaDir"\<close>.\<close>

definition hidden :: "string \<Rightarrow> bool" where
  "hidden d = (prefix ''.'' d \<or> d = ''@eaDir'')"

fun is_dir :: "fs_node \<Rightarrow> bool" where
  "is_dir File_node = False"
| "is_dir (Dir_node entries) = True"

text \<open>
  \<open>scan_root\<close> over \<open>os.walk(root, followlinks=follow_symlinks)\<close>, top down. For the
  directory \<open>dirpath\<close>, \<open>os.walk\<close> puts the entries with \<open>is_dir()\<close> into \<open>dirnames\<close>
  and the others into \<open>filenames\<close>; the generator prunes \<open>dirnames\<close> in place, yields a
  record for each remaining directory and each file that is not hidden, and \<open>os.walk\<close>
  then descends into the remaining directories, a symbolic link only with
  \<open>followlinks\<close>. A root that cannot be listed yields nothing.
\<close>

fun scan_walk :: "path \<Rightarrow> bool \<Rightarrow> path \<Rightarrow> fs_node \<Rightarrow> scan_record list" where
  "scan_walk rootp follow dirpath File_node = []"
| "scan_walk rootp follow dirpath (Dir_node entries) =
     (let dirnames = filter (\<lambda>(d, l, t). \<not> hidden d) (filter (\<lambda>(d, l, t). is_dir t) entries);
          filenames = map fst (filter (\<lambda>(d, l, t). \<not> is_dir t) entries)
      in map (\<lambda>(d, l, t). \<lparr>r_type = ''dir'', r_root_path = path_str rootp,
                r_full_path = path_str (dirpath @ [d]), r_name = d\<rparr>) dirnames
         @ map (\<lambda>f. \<lparr>r_type = ''file'', r_root_path = path_str rootp,
                r_full_path = path_str (dirpath @ [f]), r_name = f\<rparr>)
             (filter (\<lambda>f. \<not> hidden f) filenames)
         @ concat (map (\<lambda>(d, l, t).
             if follow \<or> \<not> l then scan_walk rootp follow (dirpath @ [d]) t else [])
             dirnames))"

definition scan_root :: "world \<Rightarrow> path \<Rightarrow> bool \<Rightarrow> scan_record list" where
  "scan_root w rootp follow =
     (case w_lookup w rootp of None \<Rightarrow> [] | Some node \<Rightarrow> scan_walk rootp follow rootp node)"

section \<open>RecordSink\<close>

text \<open>
  \<open>csv.DictWriter\<close> with the default dialect: delimiter \<open>,\<close>, quote character \<open>"\<close>
  doubled inside a quoted field, minimal quoting (a field is quoted when it holds the
  delimiter, the quote character, or a character of the line terminator), and the line
  terminator CR LF.
\<close>

definition csv_special :: "char \<Rightarrow> bool" where
  "csv_special c = (c = CHR '','' \<or> c = CHR 0x22 \<or> c = CHR 0x0D \<or> c = CHR 0x0A)"

fun csv_double :: "string \<Rightarrow> string" where
  "csv_double [] = []"
| "csv_double (c # cs) = (if c = CHR 0x22 then c # c # csv_double cs else c # csv_double cs)"

definition csv_field :: "string \<Rightarrow> string" where
  "csv_field s = (if list_ex csv_special s then [CHR 0x22] @ csv_double s @ [CHR 0x22] else s)"

definition csv_writerow :: "string list \<Rightarrow> string" where
  "csv_writerow row = join '','' (map csv_field row) @ [CHR 0x0D, CHR 0x0A]"

definition fieldnames :: "string list" where
  "fieldnames = [''type'', ''root_path'', ''full_path'', ''name'']"

text \<open>The values of a row in the order of \<open>fieldnames\<close>.\<close>

definition row_values :: "scan_record \<Rightarrow> string list" where
  "row_values r = [r_type r, r_root_path r, r_full_path r, r_name r]"

text \<open>
  \<open>write_csv\<close>: the bytes written to the file, header first, when every value is
  well-formed UTF-8. On a value that is not, the strict codec of the file raises
  \<open>UnicodeEncodeError\<close> and the file ends before that row; like the failures of the
  local file system, this is not modelled.
\<close>

definition write_csv :: "scan_record list \<Rightarrow> string" where
  "write_csv rows = csv_writerow fieldnames @ concat (map (\<lambda>r. csv_writerow (row_values r)) rows)"

text \<open>Writing a file of the output directory replaces the entry of that name.\<close>

definition write_file :: "string \<Rightarrow> string \<Rightarrow> world \<Rightarrow> world" where
  "write_file name bytes w =
     w\<lparr>w_output_dir := filter (\<lambda>f. e_name f \<noteq> name) (w_output_dir w)
          @ [\<lparr>e_name = name, e_is_file = True, e_mtime = w_now_local w, e_content = bytes\<rparr>]\<rparr>"

definition file_exists :: "string \<Rightarrow> world \<Rightarrow> bool" where
  "file_exists name w = list_ex (\<lambda>f. e_name f = name) (w_output_dir w)"

section \<open>RetentionManager\<close>

definition LATEST_CSV_NAME :: string where
  "LATEST_CSV_NAME = ''scan_latest.csv''"

text \<open>
  The regular expression \<open>^scan_\d{8}_\d{6}\.csv$\<close> under \<open>pattern.match\<close>, on ASCII
  names: a literal, eight digits, a literal, six digits, a literal, and then the end of
  the name or one final line feed (Python's \<open>$\<close>).
\<close>

definition is_digit :: "char \<Rightarrow> bool" where
  "is_digit c = (CHR ''0'' \<le> c \<and> c \<le> CHR ''9'')"

definition match_lit :: "string \<Rightarrow> string \<Rightarrow> string option" where
  "match_lit lit s = (if prefix lit s then Some (drop (length lit) s) else None)"

definition match_digits :: "nat \<Rightarrow> string \<Rightarrow> string option" where
  "match_digits n s =
     (if n \<le> length s \<and> list_all is_digit (take n s) then Some (drop n s) else None)"

definition pattern_match :: "string \<Rightarrow> bool" where
  "pattern_match s =
     (case Option.bind (Option.bind (Option.bind (Option.bind (match_lit ''scan_'' s)
             (match_digits 8)) (match_lit ''_'')) (match_digits 6)) (match_lit ''.csv'') of
        None \<Rightarrow> False
      | Some rest \<Rightarrow> rest = [] \<or> rest = [CHR 0x0A])"

text \<open>
  The loop of \<open>cleanup_old_outputs\<close> over \<open>output_dir.iterdir()\<close>: the entries that
  stay, and the count \<open>removed\<close>.
\<close>

fun cleanup_loop :: "int \<Rightarrow> out_entry list \<Rightarrow> out_entry list \<times> nat" where
  "cleanup_loop expire_before [] = ([], 0)"
| "cleanup_loop expire_before (f # fs) =
     (let (kept, removed) = cleanup_loop expire_before fs
      in if \<not> e_is_file f then (f # kept, removed)
         else if e_name f = LATEST_CSV_NAME then (f # kept, removed)
         else if \<not> pattern_match (e_name f) then (f # kept, removed)
         else if e_mtime f < expire_before then (kept, removed + 1)
         else (f # kept, removed))"

text \<open>
  \<open>datetime.now() - timedelta(days=keep_days)\<close> in microseconds. The range of
  \<open>datetime\<close> (years 1 to 9999) is not modelled.
\<close>

definition expire_before :: "int \<Rightarrow> int \<Rightarrow> int" where
  "expire_before now keep_days = now - keep_days * 86400000000"

definition cleanup_old_outputs :: "int \<Rightarrow> world \<Rightarrow> world" where
  "cleanup_old_outputs keep_days w =
     (let (kept, removed) = cleanup_loop (expire_before (w_now_local w) keep_days) (w_output_dir w)
      in logging (Info_cleanup_done removed keep_days) (w\<lparr>w_output_dir := kept\<rparr>))"

section \<open>UploadThrottle\<close>

definition should_upload_to_oss :: "oss_config \<Rightarrow> world \<Rightarrow> bool" where
  "should_upload_to_oss oss_cfg w =
     (case upload_interval_days oss_cfg of
        None \<Rightarrow> True
      | Some interval_days \<Rightarrow>
          if interval_days = 0 then True
          else (case w_marker w of
                  Marker_absent \<Rightarrow> True
                | Marker_unreadable \<Rightarrow> True
                | Marker_time last_ts \<Rightarrow> w_now_epoch w - last_ts \<ge> interval_days * 86400))"

definition mark_oss_upload :: "world \<Rightarrow> world" where
  "mark_oss_upload w = w\<lparr>w_marker := Marker_time (w_now_epoch w)\<rparr>"

text \<open>\<open>oss_cfg[key]\<close>: a missing key raises \<open>KeyError\<close>.\<close>

definition subscript :: "string \<Rightarrow> 'a option \<Rightarrow> error + 'a" where
  "subscript key v = (case v of None \<Rightarrow> Inl (KeyError key) | Some x \<Rightarrow> Inr x)"

text \<open>\<open>s.rstrip("/")\<close>.\<close>

definition rstrip_slash :: "string \<Rightarrow> string" where
  "rstrip_slash s = rev (dropWhile (\<lambda>c. c = CHR ''/'') (rev s))"

definition read_file :: "string \<Rightarrow> world \<Rightarrow> string" where
  "read_file name w =
     (case filter (\<lambda>f. e_name f = name) (w_output_dir w) of [] \<Rightarrow> [] | f # fs \<Rightarrow> e_content f)"

text \<open>
  The body of the \<open>try\<close> of \<open>upload_latest_csv_to_oss\<close>, in the order in which the
  source evaluates it: the two credentials and the region are subscripted, the endpoint
  is taken when it is present and not empty, the client is built, the prefix, the object
  name and the bucket are subscripted, the object is put, the upload is logged and the
  marker written. The first failure ends the body with its exception.
\<close>

definition upload_body :: "oss_config \<Rightarrow> string \<Rightarrow> world \<Rightarrow> error + world" where
  "upload_body oss_cfg latest_csv w =
     (case subscript ''access_key_id'' (access_key_id oss_cfg) of Inl e \<Rightarrow> Inl e | Inr ak \<Rightarrow>
      case subscript ''access_key_secret'' (access_key_secret oss_cfg) of Inl e \<Rightarrow> Inl e | Inr sk \<Rightarrow>
      case subscript ''region'' (oss_region oss_cfg) of Inl e \<Rightarrow> Inl e | Inr region \<Rightarrow>
      case w_oss_client w ak sk region
             (case oss_endpoint oss_cfg of
                None \<Rightarrow> None
              | Some ep \<Rightarrow> if ep = [] then None else Some ep) of
        Some msg \<Rightarrow> Inl (OssError msg)
      | None \<Rightarrow>
      case subscript ''prefix'' (oss_prefix oss_cfg) of Inl e \<Rightarrow> Inl e | Inr pre \<Rightarrow>
      case subscript ''latest_object'' (latest_object oss_cfg) of Inl e \<Rightarrow> Inl e | Inr obj \<Rightarrow>
      case subscript ''bucket'' (oss_bucket oss_cfg) of Inl e \<Rightarrow> Inl e | Inr bucket \<Rightarrow>
        (let object_key = rstrip_slash pre @ ''/'' @ obj
         in case w_oss_put w bucket object_key (read_file latest_csv w) of
              Put_raises msg \<Rightarrow> Inl (OssError msg)
            | Put_ok request_id \<Rightarrow>
                Inr (mark_oss_upload (logging (Info_uploaded object_key request_id) w))))"

text \<open>
  \<open>upload_latest_csv_to_oss\<close>. The result is the exception that leaves the function,
  if any, and the environment afterwards.
\<close>

definition upload_latest_csv_to_oss :: "config \<Rightarrow> string \<Rightarrow> world \<Rightarrow> (error + unit) \<times> world" where
  "upload_latest_csv_to_oss cfg latest_csv w =
     (case oss cfg of
        None \<Rightarrow> (Inr (), w)
      | Some oss_cfg \<Rightarrow>
          if \<not> dict_get (oss_enabled oss_cfg) False then (Inr (), w)
          else if \<not> file_exists latest_csv w then (Inr (), logging Warning_latest_missing w)
          else if \<not> should_upload_to_oss oss_cfg w then (Inr (), logging Info_upload_not_due w)
          else (case upload_body oss_cfg latest_csv w of
                  Inr w' \<Rightarrow> (Inr (), w')
                | Inl e \<Rightarrow> (Inr (), logging (Exception_upload_failed e) w)))"

section \<open>The scan task\<close>

text \<open>
  The loop of \<open>scan_task\<close> over the roots, with \<open>rows\<close> as the accumulator: a root that
  does not exist is logged and skipped, or raises \<open>RuntimeError\<close>, as
  \<open>ignore_missing_path\<close> (default \<open>True\<close>) says.
\<close>

fun scan_roots :: "config \<Rightarrow> path list \<Rightarrow> scan_record list \<Rightarrow> world
    \<Rightarrow> (error + scan_record list) \<times> world" where
  "scan_roots cfg [] rows w = (Inr rows, w)"
| "scan_roots cfg (r # rs) rows w =
     (if w_lookup w r = None then
        (let msg = missing_path_prefix @ path_str r
         in if dict_get (ignore_missing_path cfg) True
            then scan_roots cfg rs rows (logging (Warning_missing_root msg) w)
            else (Inl (RuntimeError msg), w))
      else scan_roots cfg rs (rows @ scan_root w r (dict_get (follow_symlinks cfg) False)) w)"

definition scan_task :: "config \<Rightarrow> world \<Rightarrow> (error + unit) \<times> world" where
  "scan_task cfg w0 =
     (let w1 = logging Info_scan_started w0;
          raw_paths = normalize_paths (w_resolve w1) (cfg_paths cfg);
          roots = deduplicate_parent_paths raw_paths;
          w2 = logging (Info_final_roots roots) w1
      in case scan_roots cfg roots [] w2 of
           (Inl e, w3) \<Rightarrow> (Inl e, w3)
         | (Inr rows, w3) \<Rightarrow>
             (let output_file = ''scan_'' @ w_timestamp w3 @ ''.csv'';
                  w4 = write_file output_file (write_csv rows) w3;
                  w5 = write_file (latest_filename cfg) (read_file output_file w4) w4;
                  w6 = logging (Info_scan_done (length rows) output_file) w5;
                  w7 = (case retention_days cfg of
                          None \<Rightarrow> w6
                        | Some d \<Rightarrow> if d \<noteq> 0 then cleanup_old_outputs d w6 else w6)
              in upload_latest_csv_to_oss cfg (latest_filename cfg) w7))"

section \<open>Actions, jobs and the executor\<close>

text \<open>
  The module state of \<open>main.py\<close> and \<open>api.py\<close>: the dictionary \<open>jobs\<close>, beside the
  environment. The two modules define \<open>record_job\<close>, \<open>run_action\<close>, the three
  actions and \<open>trigger_action\<close> alike; \<open>main.py\<close> also starts the scheduler.
\<close>

record job =
  j_id :: string
  j_action :: string
  j_status :: string
  j_error :: string
  j_updated_at :: real

record app =
  app_jobs :: "string \<rightharpoonup> job"
  app_world :: world

type_synonym action = "world \<Rightarrow> (error + unit) \<times> world"

definition record_job :: "string \<Rightarrow> string \<Rightarrow> string \<Rightarrow> string \<Rightarrow> app \<Rightarrow> app" where
  "record_job job_id name status err a =
     a\<lparr>app_jobs := (app_jobs a)(job_id \<mapsto>
          \<lparr>j_id = job_id, j_action = name, j_status = status, j_error = err,
           j_updated_at = w_now_epoch (app_world a)\<rparr>)\<rparr>"

text \<open>
  \<open>action_scan\<close> runs \<open>scan_task\<close> inside \<open>with scan_lock\<close>; run alone, the lock is
  free before and after. The lock itself is modelled further down.
\<close>

definition action_scan :: "config \<Rightarrow> action" where
  "action_scan cfg w = scan_task cfg w"

definition action_cleanup :: "config \<Rightarrow> action" where
  "action_cleanup cfg w =
     (case retention_days cfg of
        None \<Rightarrow> (Inr (), logging Info_no_retention w)
      | Some d \<Rightarrow>
          if d = 0 then (Inr (), logging Info_no_retention w)
          else (Inr (), cleanup_old_outputs d w))"

definition action_upload_latest :: "config \<Rightarrow> action" where
  "action_upload_latest cfg w = upload_latest_csv_to_oss cfg (latest_filename cfg) w"

definition ACTIONS :: "config \<Rightarrow> string \<Rightarrow> action option" where
  "ACTIONS cfg name =
     (if name = ''scan'' then Some (action_scan cfg)
      else if name = ''cleanup'' then Some (action_cleanup cfg)
      else if name = ''upload_latest'' then Some (action_upload_latest cfg)
      else None)"

text \<open>
  \<open>run_action\<close> in its two halves: the first statement of the \<open>try\<close>, and the call of
  the action with the \<open>record_job\<close> that follows it, in the \<open>try\<close> or in the handler
  of \<open>except Exception\<close>. The result of \<open>run_action\<close> is the exception that leaves
  it, if any, and the state afterwards.
\<close>

definition run_action_begin :: "string \<Rightarrow> string \<Rightarrow> app \<Rightarrow> app" where
  "run_action_begin name job_id a = record_job job_id name ''running'' [] a"

definition run_action_finish :: "string \<Rightarrow> action \<Rightarrow> string \<Rightarrow> app \<Rightarrow> (error + unit) \<times> app" where
  "run_action_finish name fn job_id a =
     (case fn (app_world a) of
        (Inr u, w') \<Rightarrow> (Inr (), record_job job_id name ''success'' [] (a\<lparr>app_world := w'\<rparr>))
      | (Inl exc, w') \<Rightarrow>
          (Inr (), record_job job_id name ''error'' (error_message exc)
             (a\<lparr>app_world := logging (Exception_action_failed name exc) w'\<rparr>)))"

definition run_action :: "string \<Rightarrow> action \<Rightarrow> string \<Rightarrow> app \<Rightarrow> (error + unit) \<times> app" where
  "run_action name fn job_id a = run_action_finish name fn job_id (run_action_begin name job_id a)"

text \<open>
  The three ways an action body is started, and what reaches the caller. The job that
  \<open>start_scheduler\<close> registers is \<open>scan_task\<close> itself with the configuration; the
  synchronous branch of \<open>trigger_action\<close> calls \<open>run_action\<close> inline; the asynchronous
  branch makes it the target of a thread.
\<close>

definition scheduled_job :: "config \<Rightarrow> app \<Rightarrow> (error + unit) \<times> app" where
  "scheduled_job cfg a =
     (case scan_task cfg (app_world a) of (r, w') \<Rightarrow> (r, a\<lparr>app_world := w'\<rparr>))"

datatype trigger = Scheduled | Http_sync string | Http_async string

definition run_trigger :: "config \<Rightarrow> trigger \<Rightarrow> string \<Rightarrow> app \<Rightarrow> (error + unit) \<times> app" where
  "run_trigger cfg t job_id a =
     (case t of
        Scheduled \<Rightarrow> scheduled_job cfg a
      | Http_sync name \<Rightarrow>
          (case ACTIONS cfg name of None \<Rightarrow> (Inr (), a) | Some fn \<Rightarrow> run_action name fn job_id a)
      | Http_async name \<Rightarrow>
          (case ACTIONS cfg name of None \<Rightarrow> (Inr (), a) | Some fn \<Rightarrow> run_action name fn job_id a))"

section \<open>Asynchronous dispatch: the writes to one job\<close>

text \<open>
  The asynchronous branch of \<open>trigger_action\<close> first starts the thread whose target is
  \<open>run_action\<close> and then calls \<open>record_job(job_id, name, "queued")\<close>. From the start of
  the thread on, the handler has one step left and the thread has two; a schedule is an
  interleaving of the two sequences.
\<close>

datatype step = Handler_record_queued | Thread_run_action_begin | Thread_run_action_finish

definition handler_steps :: "step list" where
  "handler_steps = [Handler_record_queued]"

definition thread_steps :: "step list" where
  "thread_steps = [Thread_run_action_begin, Thread_run_action_finish]"

definition async_schedules :: "step list set" where
  "async_schedules = shuffles handler_steps thread_steps"

fun exec_step :: "string \<Rightarrow> action \<Rightarrow> string \<Rightarrow> step \<Rightarrow> app \<Rightarrow> app" where
  "exec_step name fn job_id Handler_record_queued a = record_job job_id name ''queued'' [] a"
| "exec_step name fn job_id Thread_run_action_begin a = run_action_begin name job_id a"
| "exec_step name fn job_id Thread_run_action_finish a = snd (run_action_finish name fn job_id a)"

text \<open>The status of the job after each step of a schedule.\<close>

fun status_history :: "string \<Rightarrow> action \<Rightarrow> string \<Rightarrow> step list \<Rightarrow> app \<Rightarrow> string list" where
  "status_history name fn job_id [] a = []"
| "status_history name fn job_id (s # ss) a =
     (let a' = exec_step name fn job_id s a
      in (case app_jobs a' job_id of None \<Rightarrow> [] | Some j \<Rightarrow> [j_status j])
         @ status_history name fn job_id ss a')"

section \<open>The scan lock\<close>

text \<open>
  What a unit of execution does to the lock and to the scan pipeline. \<open>action_scan\<close>
  is \<open>with scan_lock: scan_task(config)\<close>; the scheduler's job is \<open>scan_task(config)\<close>.
  A thread is its remaining operations and whether it is inside \<open>scan_task\<close>; a step of
  thread \<open>i\<close> executes its next operation, and \<open>Acquire\<close> cannot be executed while the
  lock is held.
\<close>

datatype lock_op = Acquire | Scan_task_enter | Scan_task_exit | Release

definition action_scan_ops :: "lock_op list" where
  "action_scan_ops = [Acquire, Scan_task_enter, Scan_task_exit, Release]"

definition scheduled_job_ops :: "lock_op list" where
  "scheduled_job_ops = [Scan_task_enter, Scan_task_exit]"

fun trigger_ops :: "trigger \<Rightarrow> lock_op list" where
  "trigger_ops Scheduled = scheduled_job_ops"
| "trigger_ops (Http_sync name) = (if name = ''scan'' then action_scan_ops else [])"
| "trigger_ops (Http_async name) = (if name = ''scan'' then action_scan_ops else [])"

type_synonym thread = "lock_op list \<times> bool"

fun thread_step :: "bool \<Rightarrow> thread \<Rightarrow> (bool \<times> thread) option" where
  "thread_step held ([], inside) = None"
| "thread_step held (Acquire # ops, inside) = (if held then None else Some (True, (ops, inside)))"
| "thread_step held (Scan_task_enter # ops, inside) = Some (held, (ops, True))"
| "thread_step held (Scan_task_exit # ops, inside) = Some (held, (ops, False))"
| "thread_step held (Release # ops, inside) = Some (False, (ops, inside))"

fun run_schedule :: "nat list \<Rightarrow> bool \<times> thread list \<Rightarrow> (bool \<times> thread list) option" where
  "run_schedule [] s = Some s"
| "run_schedule (i # sched) (held, ts) =
     (if i < length ts then
        (case thread_step held (ts ! i) of
           None \<Rightarrow> None
         | Some (held', t') \<Rightarrow> run_schedule sched (held', ts[i := t']))
      else None)"

definition start_threads :: "trigger list \<Rightarrow> bool \<times> thread list" where
  "start_threads triggers = (False, map (\<lambda>t. (trigger_ops t, False)) triggers)"

definition inside_scan_task :: "bool \<times> thread list \<Rightarrow> nat" where
  "inside_scan_task s = length (filter snd (snd s))"

section \<open>A reader for the record file\<close>




section \<open>Notions of the specification and example inputs\<close>

text \<open>
  A file that the retention policy is to delete: a plain file whose name matches the
  dated pattern and whose modification time is strictly before the cut-off.
\<close>

definition expired :: "int \<Rightarrow> out_entry \<Rightarrow> bool" where
  "expired cutoff f = (e_is_file f \<and> pattern_match (e_name f) \<and> e_mtime f < cutoff)"

text \<open>
  An upload was attempted between two states of the environment when the log gained the
  entry of a finished put or of a failed one, the two ends of the \<open>try\<close> block.
\<close>

fun is_attempt_event :: "event \<Rightarrow> bool" where
  "is_attempt_event (Info_uploaded k r) = True"
| "is_attempt_event (Exception_upload_failed e) = True"
| "is_attempt_event ev = False"

definition upload_attempted :: "world \<Rightarrow> world \<Rightarrow> bool" where
  "upload_attempted w w' = list_ex is_attempt_event (drop (length (w_log w)) (w_log w'))"

text \<open>
  The example of the specification: \<open>/data/a\<close> holds \<open>x.txt\<close>, a hidden directory, a
  metadata directory and the directory \<open>sub\<close>; \<open>/data/b\<close> does not exist.
\<close>

definition example_sub :: fs_node where
  "example_sub = Dir_node [(''y.txt'', False, File_node), (''.hidden'', False, File_node)]"

definition example_git :: fs_node where
  "example_git = Dir_node [(''config'', False, File_node)]"

definition example_tree :: fs_node where
  "example_tree =
     Dir_node [(''x.txt'', False, File_node),
               (''.git'', False, example_git),
               (''@eaDir'', False, Dir_node [(''thumb'', False, File_node)]),
               (''sub'', False, example_sub)]"

definition example_lookup :: "path \<Rightarrow> fs_node option" where
  "example_lookup p =
     (if p = [''/'', ''data'', ''a''] then Some example_tree
      else if p = [''/'', ''data'', ''a'', ''sub''] then Some example_sub
      else if p = [''/'', ''data'', ''a'', ''.git''] then Some example_git
      else None)"

definition example_oss :: oss_config where
  "example_oss =
     \<lparr>oss_enabled = Some True, upload_interval_days = Some 7,
      access_key_id = Some ''id'', access_key_secret = Some ''secret'',
      oss_region = Some ''cn-hangzhou'', oss_endpoint = None, oss_prefix = Some ''scans/'',
      latest_object = Some ''scan_latest.csv'', oss_bucket = Some ''bucket''\<rparr>"

definition example_config :: config where
  "example_config =
     \<lparr>cfg_paths = [''/data/a'', ''/data/a/sub'', ''/data/b''], ignore_missing_path = None,
      follow_symlinks = None, latest_filename = ''scan_latest.csv'',
      retention_days = Some 7, oss = Some example_oss\<rparr>"

text \<open>
  The environment at 1000000 seconds: an old dated file and the latest file in the
  output directory, a marker written eight days before, and an object store whose
  client can be built and that refuses every put.
\<close>

definition example_world :: world where
  "example_world =
     \<lparr>w_resolve = example_resolve, w_lookup = example_lookup,
      w_output_dir =
        [\<lparr>e_name = ''scan_19700101_000000.csv'', e_is_file = True, e_mtime = 0,
          e_content = []\<rparr>,
         \<lparr>e_name = ''scan_latest.csv'', e_is_file = True, e_mtime = 0, e_content = []\<rparr>],
      w_marker = Marker_time 308800, w_now_local = 1000000000000, w_now_epoch = 1000000,
      w_timestamp = ''19700112_134640'',
      w_oss_client = (\<lambda>ak sk region ep. None),
      w_oss_put = (\<lambda>bucket key bytes. Put_raises ''timeout''), w_log = []\<rparr>"

definition example_app :: app where
  "example_app = \<lparr>app_jobs = Map.empty, app_world = example_world\<rparr>"

text \<open>The same configuration with \<open>ignore_missing_path\<close> set to \<open>false\<close>.\<close>

definition strict_config :: config where
  "strict_config = example_config\<lparr>ignore_missing_path := Some False\<rparr>"

text \<open>
  A configuration whose latest file has a name of the dated pattern, and an output
  directory where that file is eight days old.
\<close>

definition stale_latest_config :: config where
  "stale_latest_config = example_config\<lparr>latest_filename := ''scan_20240101_000000.csv''\<rparr>"

definition stale_latest_world :: world where
  "stale_latest_world =
     example_world\<lparr>w_output_dir :=
       [\<lparr>e_name = ''scan_20240101_000000.csv'', e_is_file = True,
         e_mtime = 308800000000, e_content = []\<rparr>]\<rparr>"

text \<open>
  An upload interval of zero days with a marker that lies in the future of the clock.
\<close>

definition zero_interval_config :: config where
  "zero_interval_config =
     example_config\<lparr>oss := Some (example_oss\<lparr>upload_interval_days := Some 0\<rparr>)\<rparr>"

definition zero_interval_world :: world where
  "zero_interval_world = example_world\<lparr>w_marker := Marker_time 1000100\<rparr>"

text \<open>The same environment with an object store that accepts every put.\<close>

definition accepting_world :: world where
  "accepting_world = example_world\<lparr>w_oss_put := (\<lambda>bucket key bytes. Put_ok ''req-1'')\<rparr>"

text \<open>
  The states of a thread that runs \<open>action_scan\<close>, the ones in which it holds the lock,
  and the invariant of the lock: the lock is held exactly when one thread holds it.
\<close>

definition locked_scan_state :: "thread \<Rightarrow> bool" where
  "locked_scan_state t =
     (t = (action_scan_ops, False) \<or> t = ([Scan_task_enter, Scan_task_exit, Release], False)
      \<or> t = ([Scan_task_exit, Release], True) \<or> t = ([Release], False) \<or> t = ([], False))"

definition holds_lock :: "thread \<Rightarrow> bool" where
  "holds_lock t =
     (fst t = [Scan_task_enter, Scan_task_exit, Release] \<or> fst t = [Scan_task_exit, Release]
      \<or> fst t = [Release])"

definition lock_invariant :: "bool \<times> thread list \<Rightarrow> bool" where
  "lock_invariant s =
     (list_all locked_scan_state (snd s)
      \<and> length (filter holds_lock (snd s)) = (if fst s then 1 else 0))"

section \<open>Chains of entries and proper names\<close>

text \<open>
  The nodes that a chain of names reaches from a node of the tree, going from a
  directory to its entry of the next name. The walk descends into an entry only when
  it is a directory, and into a symbolic link only with \<open>followlinks\<close>; the last name of
  the chain may be any entry.
\<close>

fun chain_targets :: "bool \<Rightarrow> fs_node \<Rightarrow> path \<Rightarrow> fs_node list" where
  "chain_targets follow node [] = [node]"
| "chain_targets follow File_node (s # segs) = []"
| "chain_targets follow (Dir_node entries) (s # segs) =
     concat (map (\<lambda>(n, l, t).
        if n = s \<and> (segs = [] \<or> follow \<or> \<not> l) then chain_targets follow t segs else [])
        entries)"

text \<open>
  A name as a file system has it: not empty and without \<open>/\<close>. The parts of an absolute
  path after the anchor are such names, and so are the names of the entries of a tree.
\<close>

definition proper_segment :: "string \<Rightarrow> bool" where
  "proper_segment s = (s \<noteq> [] \<and> \<not> list_ex (\<lambda>c. c = CHR ''/'') s)"

definition absolute_path :: "path \<Rightarrow> bool" where
  "absolute_path p =
     (case p of [] \<Rightarrow> False
      | a # rest \<Rightarrow> (a = ''/'' \<or> a = ''//'') \<and> list_all proper_segment rest)"

fun proper_names :: "fs_node \<Rightarrow> bool" where
  "proper_names File_node = True"
| "proper_names (Dir_node entries) =
     list_all (\<lambda>(n, l, t). proper_segment n \<and> proper_names t) entries"

section \<open>Text that the strict UTF-8 codec encodes\<close>




text \<open>
  Two records whose values hold a comma, a double quote, a line break and a character
  of three bytes.
\<close>

definition quoting_rows :: "scan_record list" where
  "quoting_rows =
     [\<lparr>r_type = ''file'', r_root_path = ''/data/a'', r_full_path = ''/data/a/x,1.txt'',
       r_name = ''x,1.txt''\<rparr>,
      \<lparr>r_type = ''file'', r_root_path = ''/data/a'',
       r_full_path = ''/data/a/'' @ [CHR 0x22, CHR 0x0D, CHR 0x0A, CHR 0xE8, CHR 0xB7, CHR 0xAF],
       r_name = [CHR 0x22, CHR 0x0D, CHR 0x0A, CHR 0xE8, CHR 0xB7, CHR 0xAF]\<rparr>]"
section \<open>PathResolver: the kept roots are a minimal cover\<close>

lemma prefix_le: "prefix xs ys \<Longrightarrow> xs \<le> (ys :: ('a::linorder) list)"
proof -
  assume "prefix xs ys"
  then obtain zs where ys: "ys = xs @ zs" by (auto simp: prefix_def)
  show ?thesis
  proof (cases zs)
    case Nil
    with ys show ?thesis by simp
  next
    case (Cons z zs')
    then have "(xs, xs @ zs) \<in> lexord {(u, v). u < v}"
      by (simp add: lexord_append_rightI)
    with ys show ?thesis by (simp add: list_le_def list_less_def)
  qed
qed

lemma dedup_loop_subset: "set (dedup_loop roots ps) \<subseteq> set roots \<union> set ps"
proof (induction ps arbitrary: roots)
  case Nil
  then show ?case by simp
next
  case (Cons q ps)
  from Cons.IH[of roots] Cons.IH[of "roots @ [q]"] show ?case by auto
qed

lemma dedup_loop_keeps: "set roots \<subseteq> set (dedup_loop roots ps)"
proof (induction ps arbitrary: roots)
  case Nil
  then show ?case by simp
next
  case (Cons q ps)
  from Cons.IH[of roots] Cons.IH[of "roots @ [q]"] show ?case by auto
qed

lemma dedup_loop_covers:
  "p \<in> set roots \<union> set ps \<Longrightarrow> \<exists>r \<in> set (dedup_loop roots ps). is_relative_to p r"
proof (induction ps arbitrary: roots)
  case Nil
  then show ?case by (auto simp: is_relative_to_def)
next
  case (Cons q ps)
  show ?case
  proof (cases "list_ex (\<lambda>r. is_relative_to q r) roots")
    case True
    then obtain r where r: "r \<in> set roots" "is_relative_to q r" by (auto simp: list_ex_iff)
    show ?thesis
    proof (cases "p = q")
      case True
      with r dedup_loop_keeps[of roots ps] \<open>list_ex (\<lambda>r. is_relative_to q r) roots\<close> show ?thesis by auto
    next
      case False
      with Cons.prems have "p \<in> set roots \<union> set ps" by auto
      from Cons.IH[OF this] True show ?thesis by simp
    qed
  next
    case False
    from Cons.prems have "p \<in> set (roots @ [q]) \<union> set ps" by auto
    from Cons.IH[OF this] False show ?thesis by simp
  qed
qed

lemma dedup_loop_antichain:
  "antichain roots \<Longrightarrow> sorted ps \<Longrightarrow> (\<forall>r \<in> set roots. \<forall>p \<in> set ps. r \<le> p)
   \<Longrightarrow> antichain (dedup_loop roots ps)"
proof (induction ps arbitrary: roots)
  case Nil
  then show ?case by simp
next
  case (Cons q ps)
  show ?case
  proof (cases "list_ex (\<lambda>r. is_relative_to q r) roots")
    case True
    with Cons show ?thesis by simp
  next
    case False
    then have nopre: "\<forall>r \<in> set roots. \<not> prefix r q" by (auto simp: list_ex_iff is_relative_to_def)
    have "antichain (roots @ [q])"
      unfolding antichain_def
    proof (intro conjI ballI impI)
      show "distinct (roots @ [q])" using Cons.prems(1) nopre by (auto simp: antichain_def)
    next
      fix a b assume ab: "a \<in> set (roots @ [q])" "b \<in> set (roots @ [q])" "a \<noteq> b"
      show "\<not> is_relative_to a b"
      proof
        assume rel: "is_relative_to a b"
        then have pre: "prefix b a" by (simp add: is_relative_to_def)
        consider "a \<in> set roots" "b \<in> set roots" | "a = q" "b \<in> set roots" | "a \<in> set roots" "b = q"
          using ab by auto
        then show False
        proof cases
          case 1 with Cons.prems(1) ab rel show False by (auto simp: antichain_def)
        next
          case 2 with nopre pre show False by auto
        next
          case 3
          then have "a \<le> q" using Cons.prems(3) by auto
          moreover have "q \<le> a" using pre 3 prefix_le by auto
          ultimately show False using ab 3 by auto
        qed
      qed
    qed
    moreover have "sorted ps" using Cons.prems(2) by simp
    moreover have "\<forall>r \<in> set (roots @ [q]). \<forall>p \<in> set ps. r \<le> p" using Cons.prems(2,3) by auto
    ultimately have "antichain (dedup_loop (roots @ [q]) ps)" by (rule Cons.IH)
    with False show ?thesis by simp
  qed
qed


text \<open>
  Claim C6. For any list of input paths, no member of the output of
  \<open>deduplicate_parent_paths\<close> (after \<open>normalize_paths\<close>) lies below another member in
  the path tree, and the paths at or below some output root are exactly the paths at or
  below some input path.
\<close>

theorem deduplicate_parent_paths_minimal_cover:
  "(\<forall>p \<in> set (deduplicate_parent_paths (normalize_paths resolve ps)).
      \<forall>q \<in> set (deduplicate_parent_paths (normalize_paths resolve ps)).
        p \<noteq> q \<longrightarrow> \<not> is_relative_to p q)
   \<and> (\<Union>r \<in> set (deduplicate_parent_paths (normalize_paths resolve ps)). descendants r)
     = (\<Union>p \<in> set (normalize_paths resolve ps). descendants p)"
proof -
  define paths where "paths = normalize_paths resolve ps"
  define out where "out = deduplicate_parent_paths paths"
  have out: "out = dedup_loop [] (sort paths)"
    by (simp add: out_def deduplicate_parent_paths_def)
  have "antichain []" by (simp add: antichain_def)
  then have "antichain out"
    unfolding out by (rule dedup_loop_antichain) simp_all
  then have a: "\<forall>p \<in> set out. \<forall>q \<in> set out. p \<noteq> q \<longrightarrow> \<not> is_relative_to p q"
    by (simp add: antichain_def)
  have sub: "set out \<subseteq> set paths"
    using dedup_loop_subset[of "[]" "sort paths"] by (simp add: out)
  have cov: "\<exists>r \<in> set out. is_relative_to p r" if "p \<in> set paths" for p
    using dedup_loop_covers[of p "[]" "sort paths"] that by (simp add: out)
  have "(\<Union>r \<in> set out. descendants r) = (\<Union>p \<in> set paths. descendants p)"
  proof (intro equalityI subsetI)
    fix x assume "x \<in> (\<Union>r \<in> set out. descendants r)"
    with sub show "x \<in> (\<Union>p \<in> set paths. descendants p)" by auto
  next
    fix x assume "x \<in> (\<Union>p \<in> set paths. descendants p)"
    then obtain p where p: "p \<in> set paths" "prefix p x"
      by (auto simp: descendants_def is_relative_to_def)
    from cov[OF p(1)] obtain r where r: "r \<in> set out" "prefix r p"
      by (auto simp: is_relative_to_def)
    from r(2) p(2) have "prefix r x" by (rule prefix_order.trans)
    with r(1) show "x \<in> (\<Union>r \<in> set out. descendants r)"
      by (auto simp: descendants_def is_relative_to_def)
  qed
  with a show ?thesis by (simp add: out_def paths_def)
qed

theorem deduplicate_parent_paths_minimal_cover_witness:
  "deduplicate_parent_paths (normalize_paths example_resolve [''/data/a'', ''/data/a/sub'', ''/data/b''])
     = [[''/'', ''data'', ''a''], [''/'', ''data'', ''b'']]
   \<and> \<not> is_relative_to [''/'', ''data'', ''a''] [''/'', ''data'', ''b'']
   \<and> \<not> is_relative_to [''/'', ''data'', ''b''] [''/'', ''data'', ''a'']
   \<and> descendants [''/'', ''data'', ''a''] \<union> descendants [''/'', ''data'', ''b'']
     = descendants [''/'', ''data'', ''a''] \<union> descendants [''/'', ''data'', ''a'', ''sub'']
       \<union> descendants [''/'', ''data'', ''b'']"
proof -
  have n: "normalize_paths example_resolve [''/data/a'', ''/data/a/sub'', ''/data/b'']
      = [[''/'', ''data'', ''a''], [''/'', ''data'', ''a'', ''sub''], [''/'', ''data'', ''b'']]"
    by (simp add: normalize_paths_def example_resolve_def)
  have e: "deduplicate_parent_paths [[''/'', ''data'', ''a''], [''/'', ''data'', ''a'', ''sub''], [''/'', ''data'', ''b'']]
      = [[''/'', ''data'', ''a''], [''/'', ''data'', ''b'']]"
    by code_simp
  show ?thesis
    using deduplicate_parent_paths_minimal_cover
      [of example_resolve "[''/data/a'', ''/data/a/sub'', ''/data/b'']"]
    unfolding n e by (simp add: Un_assoc)
qed



section \<open>TreeScanner: every record lies below its root and is not hidden\<close>

lemma chain_targets_entry:
  "(d, l, t) \<in> set entries \<Longrightarrow> t \<in> set (chain_targets follow (Dir_node entries) [d])"
  by (auto intro!: bexI[of _ "(d, l, t)"])

lemma chain_targets_step:
  "(d, l, t) \<in> set entries \<Longrightarrow> follow \<or> \<not> l \<Longrightarrow> u \<in> set (chain_targets follow t segs) \<Longrightarrow>
   u \<in> set (chain_targets follow (Dir_node entries) (d # segs))"
  by (auto intro!: bexI[of _ "(d, l, t)"])

lemma scan_walk_chain:
  "rec \<in> set (scan_walk R follow dp node) \<Longrightarrow>
   \<exists>segs t. t \<in> set (chain_targets follow node segs) \<and> segs \<noteq> []
     \<and> (\<forall>s \<in> set segs. \<not> hidden s)
     \<and> r_full_path rec = path_str (dp @ segs) \<and> r_name rec = last segs
     \<and> r_type rec = (if is_dir t then ''dir'' else ''file'')
     \<and> r_root_path rec = path_str R"
proof (induction R follow dp node arbitrary: rec rule: scan_walk.induct)
  case (1 rootp follow dirpath)
  then show ?case by simp
next
  case (2 rootp follow dirpath entries)
  define dirnames where
    "dirnames = filter (\<lambda>(d, l, t). \<not> hidden d) (filter (\<lambda>(d, l, t). is_dir t) entries)"
  define filenames where "filenames = map fst (filter (\<lambda>(d, l, t). \<not> is_dir t) entries)"
  have dn: "(d, l, t) \<in> set entries \<and> is_dir t \<and> \<not> hidden d" if "(d, l, t) \<in> set dirnames" for d l t
    using that by (auto simp: dirnames_def)
  from "2.prems" have mem:
    "rec \<in> set (map (\<lambda>(d, l, t). \<lparr>r_type = ''dir'', r_root_path = path_str rootp,
                r_full_path = path_str (dirpath @ [d]), r_name = d\<rparr>) dirnames)
     \<or> rec \<in> set (map (\<lambda>f. \<lparr>r_type = ''file'', r_root_path = path_str rootp,
                r_full_path = path_str (dirpath @ [f]), r_name = f\<rparr>)
             (filter (\<lambda>f. \<not> hidden f) filenames))
     \<or> rec \<in> set (concat (map (\<lambda>(d, l, t).
             if follow \<or> \<not> l then scan_walk rootp follow (dirpath @ [d]) t else [])
             dirnames))"
    unfolding dirnames_def filenames_def by (simp add: Let_def)
  then consider
      (subdir) d l t where "(d, l, t) \<in> set dirnames"
        "rec = \<lparr>r_type = ''dir'', r_root_path = path_str rootp,
                r_full_path = path_str (dirpath @ [d]), r_name = d\<rparr>"
    | (leaf) f l t where "(f, l, t) \<in> set entries" "\<not> is_dir t" "\<not> hidden f"
        "rec = \<lparr>r_type = ''file'', r_root_path = path_str rootp,
                r_full_path = path_str (dirpath @ [f]), r_name = f\<rparr>"
    | (sub) d l t where "(d, l, t) \<in> set dirnames" "follow \<or> \<not> l"
        "rec \<in> set (scan_walk rootp follow (dirpath @ [d]) t)"
  proof (elim disjE)
    assume "rec \<in> set (map (\<lambda>(d, l, t). \<lparr>r_type = ''dir'', r_root_path = path_str rootp,
                r_full_path = path_str (dirpath @ [d]), r_name = d\<rparr>) dirnames)"
    then obtain x where x: "x \<in> set dirnames" "rec = (\<lambda>(d, l, t). \<lparr>r_type = ''dir'', r_root_path = path_str rootp,
                r_full_path = path_str (dirpath @ [d]), r_name = d\<rparr>) x" by auto
    obtain d l t where "x = (d, l, t)" by (rule prod_cases3)
    with x show ?thesis using subdir[of d l t] by simp
  next
    assume "rec \<in> set (map (\<lambda>f. \<lparr>r_type = ''file'', r_root_path = path_str rootp,
                r_full_path = path_str (dirpath @ [f]), r_name = f\<rparr>)
             (filter (\<lambda>f. \<not> hidden f) filenames))"
    then obtain f where f: "f \<in> set filenames" "\<not> hidden f"
      "rec = \<lparr>r_type = ''file'', r_root_path = path_str rootp,
                r_full_path = path_str (dirpath @ [f]), r_name = f\<rparr>" by auto
    from f(1) obtain x where x: "x \<in> set entries" "\<not> (\<lambda>(d, l, t). is_dir t) x" "f = fst x"
      by (auto simp: filenames_def)
    obtain d l t where "x = (d, l, t)" by (rule prod_cases3)
    with x f show ?thesis using leaf[of f l t] by simp
  next
    assume "rec \<in> set (concat (map (\<lambda>(d, l, t).
             if follow \<or> \<not> l then scan_walk rootp follow (dirpath @ [d]) t else [])
             dirnames))"
    then obtain x where x: "x \<in> set dirnames" "rec \<in> set ((\<lambda>(d, l, t).
             if follow \<or> \<not> l then scan_walk rootp follow (dirpath @ [d]) t else []) x)" by auto
    obtain d l t where "x = (d, l, t)" by (rule prod_cases3)
    with x show ?thesis using sub[of d l t] by (simp split: if_splits)
  qed
  then show ?case
  proof cases
    case subdir
    from dn[OF subdir(1)] have e: "(d, l, t) \<in> set entries" "is_dir t" "\<not> hidden d" by simp_all
    from e(1) have "t \<in> set (chain_targets follow (Dir_node entries) [d])"
      by (rule chain_targets_entry)
    with e subdir(2) show ?thesis
      by (intro exI[of _ "[d]"] exI[of _ t]) simp
  next
    case leaf
    from leaf(1) have "t \<in> set (chain_targets follow (Dir_node entries) [f])"
      by (rule chain_targets_entry)
    with leaf show ?thesis
      by (intro exI[of _ "[f]"] exI[of _ t]) simp
  next
    case sub
    from dn[OF sub(1)] have e: "(d, l, t) \<in> set entries" "\<not> hidden d" by simp_all
    from "2.IH"[OF dirnames_def filenames_def sub(1) refl refl sub(2) sub(3)]
    obtain segs u where segs: "u \<in> set (chain_targets follow t segs)" "segs \<noteq> []"
      "\<forall>s \<in> set segs. \<not> hidden s"
      "r_full_path rec = path_str ((dirpath @ [d]) @ segs)" "r_name rec = last segs"
      "r_type rec = (if is_dir u then ''dir'' else ''file'')"
      "r_root_path rec = path_str rootp"
      by blast
    from e(1) sub(2) segs(1) have "u \<in> set (chain_targets follow (Dir_node entries) (d # segs))"
      by (rule chain_targets_step)
    with segs e(2) show ?thesis
      by (intro exI[of _ "d # segs"] exI[of _ u]) simp
  qed
qed

lemma chain_targets_proper:
  "proper_names node \<Longrightarrow> t \<in> set (chain_targets follow node segs) \<Longrightarrow>
   list_all proper_segment segs"
proof (induction follow node segs arbitrary: t rule: chain_targets.induct)
  case (1 follow node)
  then show ?case by simp
next
  case (2 follow s segs)
  then show ?case by simp
next
  case (3 follow entries s segs)
  from "3.prems"(2) obtain x where x: "x \<in> set entries"
    "t \<in> set ((\<lambda>(n, l, t). if n = s \<and> (segs = [] \<or> follow \<or> \<not> l)
                  then chain_targets follow t segs else []) x)"
    by auto
  obtain n l u where xe: "x = (n, l, u)" by (rule prod_cases3)
  with x have c: "n = s" "segs = [] \<or> follow \<or> \<not> l" "t \<in> set (chain_targets follow u segs)"
    by (simp_all split: if_splits)
  from "3.prems"(1) x(1) xe have p: "proper_segment n" "proper_names u"
    by (auto simp: list_all_iff)
  from "3.IH"[OF x(1) xe[symmetric] refl _ p(2) c(3)] c(1,2)
  have "list_all proper_segment segs" by simp
  with p(1) c(1) show ?case by simp
qed

text \<open>
  The string of a path determines its proper segments below an absolute root.
\<close>

lemma join_Cons: "zs \<noteq> [] \<Longrightarrow> join sep (x # zs) = x @ sep @ join sep zs"
  by (cases zs) simp_all

lemma slash_split:
  assumes "\<not> list_ex (\<lambda>c. c = CHR ''/'') x" "\<not> list_ex (\<lambda>c. c = CHR ''/'') y"
    and "x @ ''/'' @ A = y @ ''/'' @ B"
  shows "x = y \<and> A = B"
proof -
  have tx: "takeWhile (\<lambda>c. c \<noteq> CHR ''/'') (x @ CHR ''/'' # A) = x"
    using assms(1) by (auto simp: list_ex_iff takeWhile_tail)
  have ty: "takeWhile (\<lambda>c. c \<noteq> CHR ''/'') (y @ CHR ''/'' # B) = y"
    using assms(2) by (auto simp: list_ex_iff takeWhile_tail)
  from assms(3) tx ty have "x = y" by simp
  with assms(3) show ?thesis by simp
qed

lemma join_inj:
  "list_all proper_segment xs \<Longrightarrow> list_all proper_segment ys \<Longrightarrow> xs \<noteq> [] \<Longrightarrow> ys \<noteq> [] \<Longrightarrow>
   join ''/'' xs = join ''/'' ys \<Longrightarrow> xs = ys"
proof (induction xs arbitrary: ys)
  case Nil
  then show ?case by simp
next
  case (Cons x xs)
  from Cons.prems(4) obtain y ys' where ys: "ys = y # ys'" by (cases ys) auto
  from Cons.prems(1,2) ys have sf: "\<not> list_ex (\<lambda>c. c = CHR ''/'') x" "\<not> list_ex (\<lambda>c. c = CHR ''/'') y"
    by (simp_all add: proper_segment_def)
  show ?case
  proof (cases "xs = []")
    case True
    show ?thesis
    proof (cases "ys' = []")
      case True
      with \<open>xs = []\<close> Cons.prems(5) ys show ?thesis by simp
    next
      case False
      with \<open>xs = []\<close> Cons.prems(5) ys have "x = y @ ''/'' @ join ''/'' ys'"
        by (simp add: join_Cons)
      with sf(1) show ?thesis by (simp add: list_ex_iff)
    qed
  next
    case False
    show ?thesis
    proof (cases "ys' = []")
      case True
      with False Cons.prems(5) ys have "y = x @ ''/'' @ join ''/'' xs"
        by (simp add: join_Cons)
      with sf(2) show ?thesis by (simp add: list_ex_iff)
    next
      case ne: False
      with False Cons.prems(5) ys
      have "x @ ''/'' @ join ''/'' xs = y @ ''/'' @ join ''/'' ys'"
        by (simp add: join_Cons)
      from slash_split[OF sf this] have e: "x = y" "join ''/'' xs = join ''/'' ys'" by simp_all
      from Cons.prems(1,2) ys have "list_all proper_segment xs" "list_all proper_segment ys'"
        by simp_all
      from Cons.IH[OF this False ne e(2)] e(1) ys show ?thesis by simp
    qed
  qed
qed

lemma join_not_Nil:
  "list_all proper_segment zs \<Longrightarrow> zs \<noteq> [] \<Longrightarrow> join ''/'' zs \<noteq> []"
proof -
  assume p: "list_all proper_segment zs" and ne: "zs \<noteq> []"
  then obtain z zs' where z: "zs = z # zs'" by (cases zs) auto
  with p have "z \<noteq> []" by (simp add: proper_segment_def)
  then show ?thesis unfolding z by (cases zs') simp_all
qed

lemma path_str_inj:
  assumes R: "absolute_path R" and xs: "list_all proper_segment xs"
    and ys: "list_all proper_segment ys" and eq: "path_str (R @ xs) = path_str (R @ ys)"
  shows "xs = ys"
proof -
  from R obtain a rest where r: "R = a # rest" "a = ''/'' \<or> a = ''//''"
    "list_all proper_segment rest"
    by (auto simp: absolute_path_def split: list.splits)
  with eq have j: "join ''/'' (rest @ xs) = join ''/'' (rest @ ys)"
    by (auto simp: path_str_def)
  have px: "list_all proper_segment (rest @ xs)" and py: "list_all proper_segment (rest @ ys)"
    using r(3) xs ys by simp_all
  show ?thesis
  proof (cases "rest @ xs = []")
    case True
    with j have "join ''/'' (rest @ ys) = []" by simp
    with join_not_Nil[OF py] have "rest @ ys = []" by blast
    with True show ?thesis by simp
  next
    case False
    with j have "join ''/'' (rest @ ys) \<noteq> []" using join_not_Nil[OF px] by simp
    then have "rest @ ys \<noteq> []" by auto
    from join_inj[OF px py False this j] show ?thesis by simp
  qed
qed

text \<open>
  Claim C7. Every record that \<open>scan_root\<close> emits for a root \<open>R\<close> is the record
  of an entry of the tree below \<open>R\<close>: a chain of names, one at least, leads from the
  root to the entry, each name an entry of the directory that the names before it reach,
  each directory on the way one that the walk descends into, and no name of the chain
  is hidden. The record's \<open>full_path\<close> is the string of \<open>R\<close> followed by the
  chain, its \<open>name\<close> the last name of the chain, which neither starts with a dot nor
  is \<open>@eaDir\<close>, its \<open>type\<close> the kind of the entry and its \<open>root_path\<close> the
  string of \<open>R\<close>. For an absolute root and a tree whose names are proper, the
  \<open>full_path\<close> alone says so: every way to read it as \<open>R\<close> followed by proper
  segments has at least one segment and no hidden one, at any depth.
\<close>

theorem scan_root_records_below_root:
  "(\<forall>rec \<in> set (scan_root w R follow).
      (\<exists>node segs t. w_lookup w R = Some node \<and> t \<in> set (chain_targets follow node segs)
         \<and> segs \<noteq> [] \<and> (\<forall>s \<in> set segs. \<not> hidden s) \<and> is_relative_to (R @ segs) R
         \<and> r_full_path rec = path_str (R @ segs) \<and> r_name rec = last segs
         \<and> r_type rec = (if is_dir t then ''dir'' else ''file''))
      \<and> r_root_path rec = path_str R
      \<and> \<not> prefix ''.'' (r_name rec) \<and> r_name rec \<noteq> ''@eaDir'')
   \<and> (absolute_path R \<and> (\<exists>node. w_lookup w R = Some node \<and> proper_names node) \<longrightarrow>
        (\<forall>rec \<in> set (scan_root w R follow). \<forall>segs.
            list_all proper_segment segs \<and> r_full_path rec = path_str (R @ segs) \<longrightarrow>
            segs \<noteq> [] \<and> (\<forall>s \<in> set segs. \<not> hidden s)))"
proof -
  have chain: "\<exists>node segs t. w_lookup w R = Some node \<and> t \<in> set (chain_targets follow node segs)
         \<and> segs \<noteq> [] \<and> (\<forall>s \<in> set segs. \<not> hidden s)
         \<and> r_full_path rec = path_str (R @ segs) \<and> r_name rec = last segs
         \<and> r_type rec = (if is_dir t then ''dir'' else ''file'')
         \<and> r_root_path rec = path_str R"
    if "rec \<in> set (scan_root w R follow)" for rec
  proof -
    from that obtain node where n: "w_lookup w R = Some node" "rec \<in> set (scan_walk R follow R node)"
      by (cases "w_lookup w R") (auto simp: scan_root_def)
    from scan_walk_chain[OF n(2)] n(1) show ?thesis by blast
  qed
  have a: "(\<exists>node segs t. w_lookup w R = Some node \<and> t \<in> set (chain_targets follow node segs)
         \<and> segs \<noteq> [] \<and> (\<forall>s \<in> set segs. \<not> hidden s) \<and> is_relative_to (R @ segs) R
         \<and> r_full_path rec = path_str (R @ segs) \<and> r_name rec = last segs
         \<and> r_type rec = (if is_dir t then ''dir'' else ''file''))
      \<and> r_root_path rec = path_str R
      \<and> \<not> prefix ''.'' (r_name rec) \<and> r_name rec \<noteq> ''@eaDir''"
    if m: "rec \<in> set (scan_root w R follow)" for rec
  proof -
    from chain[OF m] obtain node segs t where c: "w_lookup w R = Some node"
      "t \<in> set (chain_targets follow node segs)" "segs \<noteq> []" "\<forall>s \<in> set segs. \<not> hidden s"
      "r_full_path rec = path_str (R @ segs)" "r_name rec = last segs"
      "r_type rec = (if is_dir t then ''dir'' else ''file'')" "r_root_path rec = path_str R"
      by blast
    from c(3) have "last segs \<in> set segs" by simp
    with c(4) have "\<not> hidden (last segs)" by blast
    with c(6) have h: "\<not> prefix ''.'' (r_name rec)" "r_name rec \<noteq> ''@eaDir''"
      by (simp_all add: hidden_def)
    have "is_relative_to (R @ segs) R" by (simp add: is_relative_to_def)
    with c h show ?thesis by blast
  qed
  have b: "segs' \<noteq> [] \<and> (\<forall>s \<in> set segs'. \<not> hidden s)"
    if abs: "absolute_path R" and nd: "w_lookup w R = Some node" "proper_names node"
      and m: "rec \<in> set (scan_root w R follow)"
      and s: "list_all proper_segment segs'" "r_full_path rec = path_str (R @ segs')"
    for node rec segs'
  proof -
    from chain[OF m] nd(1) obtain segs t where c:
      "t \<in> set (chain_targets follow node segs)" "segs \<noteq> []" "\<forall>s \<in> set segs. \<not> hidden s"
      "r_full_path rec = path_str (R @ segs)"
      by auto
    from chain_targets_proper[OF nd(2) c(1)] have "list_all proper_segment segs" .
    from path_str_inj[OF abs this s(1)] c(4) s(2) have "segs = segs'" by simp
    with c(2,3) show ?thesis by simp
  qed
  from a b show ?thesis by blast
qed

lemma example_scan_root:
  "scan_root example_world [''/'', ''data'', ''a''] False =
     [\<lparr>r_type = ''dir'', r_root_path = ''/data/a'', r_full_path = ''/data/a/sub'', r_name = ''sub''\<rparr>,
      \<lparr>r_type = ''file'', r_root_path = ''/data/a'', r_full_path = ''/data/a/x.txt'', r_name = ''x.txt''\<rparr>,
      \<lparr>r_type = ''file'', r_root_path = ''/data/a'', r_full_path = ''/data/a/sub/y.txt'', r_name = ''y.txt''\<rparr>]"
  by (simp add: scan_root_def example_world_def example_lookup_def example_tree_def example_sub_def
      example_git_def hidden_def path_str_def Let_def)

lemma example_proper:
  "absolute_path [''/'', ''data'', ''a''] \<and> proper_names example_tree
   \<and> w_lookup example_world [''/'', ''data'', ''a''] = Some example_tree"
  by (simp add: absolute_path_def proper_segment_def example_tree_def example_sub_def
      example_git_def example_world_def example_lookup_def)

theorem scan_root_records_below_root_witness:
  "absolute_path [''/'', ''data'', ''a''] \<and> proper_names example_tree
   \<and> w_lookup example_world [''/'', ''data'', ''a''] = Some example_tree
   \<and> scan_root example_world [''/'', ''data'', ''a''] False =
     [\<lparr>r_type = ''dir'', r_root_path = ''/data/a'', r_full_path = ''/data/a/sub'', r_name = ''sub''\<rparr>,
      \<lparr>r_type = ''file'', r_root_path = ''/data/a'', r_full_path = ''/data/a/x.txt'', r_name = ''x.txt''\<rparr>,
      \<lparr>r_type = ''file'', r_root_path = ''/data/a'', r_full_path = ''/data/a/sub/y.txt'', r_name = ''y.txt''\<rparr>]
   \<and> list_all (\<lambda>rec. r_root_path rec = ''/data/a'' \<and> \<not> prefix ''.'' (r_name rec)
                      \<and> r_name rec \<noteq> ''@eaDir'')
         (scan_root example_world [''/'', ''data'', ''a''] False)
   \<and> list_all proper_segment [''sub'', ''y.txt'']
   \<and> ''/data/a/sub/y.txt'' = path_str ([''/'', ''data'', ''a''] @ [''sub'', ''y.txt''])
   \<and> \<not> hidden ''sub'' \<and> \<not> hidden ''y.txt''"
proof -
  note t = scan_root_records_below_root[of example_world "[''/'', ''data'', ''a'']" False]
  have p: "path_str [''/'', ''data'', ''a''] = ''/data/a''" by (simp add: path_str_def)
  from t have "list_all (\<lambda>rec. r_root_path rec = ''/data/a'' \<and> \<not> prefix ''.'' (r_name rec)
                      \<and> r_name rec \<noteq> ''@eaDir'')
         (scan_root example_world [''/'', ''data'', ''a''] False)"
    unfolding p list_all_iff by blast
  moreover have s: "list_all proper_segment [''sub'', ''y.txt'']"
    "''/data/a/sub/y.txt'' = path_str ([''/'', ''data'', ''a''] @ [''sub'', ''y.txt''])"
    by (simp_all add: proper_segment_def path_str_def)
  moreover have m: "\<lparr>r_type = ''file'', r_root_path = ''/data/a'',
        r_full_path = ''/data/a/sub/y.txt'', r_name = ''y.txt''\<rparr>
      \<in> set (scan_root example_world [''/'', ''data'', ''a''] False)"
    unfolding example_scan_root by simp
  have "\<forall>s \<in> set [''sub'', ''y.txt'']. \<not> hidden s"
    using t example_proper m s by fastforce
  then have "\<not> hidden ''sub''" "\<not> hidden ''y.txt''" by simp_all
  ultimately show ?thesis using example_proper example_scan_root by blast
qed

text \<open>
  The cover of claim C6 is one of paths. It is not one of scan results: a configured
  root below a hidden directory of another configured root is dropped by
  \<open>deduplicate_parent_paths\<close>, and the scan of the kept root does not descend to
  it.
\<close>

lemma hidden_configured_root_is_dropped:
  "deduplicate_parent_paths [[''/'', ''data'', ''a''], [''/'', ''data'', ''a'', ''.git'']]
     = [[''/'', ''data'', ''a'']]
   \<and> scan_root example_world [''/'', ''data'', ''a'', ''.git''] False
     = [\<lparr>r_type = ''file'', r_root_path = ''/data/a/.git'',
         r_full_path = ''/data/a/.git/config'', r_name = ''config''\<rparr>]
   \<and> \<lparr>r_type = ''file'', r_root_path = ''/data/a/.git'',
         r_full_path = ''/data/a/.git/config'', r_name = ''config''\<rparr>
       \<notin> set (scan_root example_world [''/'', ''data'', ''a''] False)"
proof -
  have "deduplicate_parent_paths [[''/'', ''data'', ''a''], [''/'', ''data'', ''a'', ''.git'']]
     = [[''/'', ''data'', ''a'']]"
    by code_simp
  moreover have "scan_root example_world [''/'', ''data'', ''a'', ''.git''] False
     = [\<lparr>r_type = ''file'', r_root_path = ''/data/a/.git'',
         r_full_path = ''/data/a/.git/config'', r_name = ''config''\<rparr>]"
    by (simp add: scan_root_def example_world_def example_lookup_def example_git_def
        hidden_def path_str_def Let_def)
  ultimately show ?thesis unfolding example_scan_root by simp
qed

section \<open>RecordSink: the header and the rows of the record file\<close>










lemma quoting_rows_written:
  "write_csv quoting_rows =
     ''type,root_path,full_path,name'' @ [CHR 0x0D, CHR 0x0A]
     @ ''file,/data/a,'' @ [CHR 0x22] @ ''/data/a/x,1.txt'' @ [CHR 0x22, CHR '','', CHR 0x22]
     @ ''x,1.txt'' @ [CHR 0x22, CHR 0x0D, CHR 0x0A]
     @ ''file,/data/a,'' @ [CHR 0x22] @ ''/data/a/''
     @ [CHR 0x22, CHR 0x22, CHR 0x0D, CHR 0x0A, CHR 0xE8, CHR 0xB7, CHR 0xAF, CHR 0x22, CHR '','',
        CHR 0x22, CHR 0x22, CHR 0x22, CHR 0x0D, CHR 0x0A, CHR 0xE8, CHR 0xB7, CHR 0xAF, CHR 0x22,
        CHR 0x0D, CHR 0x0A]"
  by (simp add: write_csv_def quoting_rows_def csv_writerow_def fieldnames_def row_values_def
      csv_field_def csv_special_def)



section \<open>RetentionManager: what the clean-up deletes\<close>

lemma pattern_match_latest: "\<not> pattern_match LATEST_CSV_NAME"
  by (simp add: pattern_match_def LATEST_CSV_NAME_def match_lit_def match_digits_def is_digit_def)

lemma cleanup_loop_filter:
  "cleanup_loop c fs = (filter (\<lambda>f. \<not> expired c f) fs, length (filter (expired c) fs))"
proof (induction fs)
  case Nil
  then show ?case by simp
next
  case (Cons f fs)
  then show ?case
    using pattern_match_latest by (auto simp: expired_def)
qed

lemma pm: "pattern_match ''scan_20240101_000000.csv''"
  by (simp add: pattern_match_def match_lit_def match_digits_def is_digit_def)

text \<open>
  The clean-up keeps exactly the entries that are not expired at the cut-off of
  \<open>keep_days\<close> days before now, in their order, and logs the number it deleted.
  The comparison with \<open>LATEST_CSV_NAME\<close> changes nothing, since that name does not
  match the dated pattern; a file of that name is never deleted.
\<close>

lemma cleanup_old_outputs_removes_exactly_expired:
  "w_output_dir (cleanup_old_outputs keep_days w)
     = filter (\<lambda>f. \<not> expired (w_now_local w - keep_days * 86400000000) f) (w_output_dir w)
   \<and> w_log (cleanup_old_outputs keep_days w)
     = w_log w @ [Info_cleanup_done
         (length (filter (expired (w_now_local w - keep_days * 86400000000)) (w_output_dir w)))
         keep_days]"
  by (simp add: cleanup_old_outputs_def cleanup_loop_filter expire_before_def logging_def)

lemma cleanup_keeps_default_latest:
  "f \<in> set (w_output_dir w) \<Longrightarrow> e_name f = LATEST_CSV_NAME \<Longrightarrow>
   f \<in> set (w_output_dir (cleanup_old_outputs keep_days w))"
  using pattern_match_latest
  by (simp add: cleanup_old_outputs_removes_exactly_expired expired_def)

text \<open>
  Claim C4. The latest file is written under the configured \<open>latest_filename\<close>, but
  the clean-up protects the fixed name \<open>LATEST_CSV_NAME\<close>. With a latest file named
  \<open>scan_20240101_000000.csv\<close> that is eight days old and seven days of retention,
  the clean-up action deletes the latest file.
\<close>

theorem action_cleanup_deletes_configured_latest:
  "file_exists (latest_filename stale_latest_config) stale_latest_world
   \<and> \<not> file_exists (latest_filename stale_latest_config)
         (snd (action_cleanup stale_latest_config stale_latest_world))"
  by (simp add: action_cleanup_def cleanup_old_outputs_def stale_latest_config_def
      stale_latest_world_def example_config_def example_world_def file_exists_def logging_def
      expire_before_def LATEST_CSV_NAME_def pm)

section \<open>The scan task: roots that do not exist\<close>

lemma lookup_logging [simp]: "w_lookup (logging ev w) = w_lookup w"
  by (simp add: logging_def)

lemma log_logging [simp]: "w_log (logging ev w) = w_log w @ [ev]"
  by (simp add: logging_def)

lemma marker_logging [simp]: "w_marker (logging ev w) = w_marker w"
  by (simp add: logging_def)

lemma scan_root_logging [simp]: "scan_root (logging ev w) r f = scan_root w r f"
  by (simp add: scan_root_def)




lemma upload_never_raises: "fst (upload_latest_csv_to_oss cfg latest w) = Inr ()"
  by (simp add: upload_latest_csv_to_oss_def split: option.splits sum.splits)

lemma scan_task_result:
  "fst (scan_task cfg w) =
     (case fst (scan_roots cfg (deduplicate_parent_paths (normalize_paths (w_resolve w) (cfg_paths cfg))) []
            (logging (Info_final_roots (deduplicate_parent_paths (normalize_paths (w_resolve w) (cfg_paths cfg))))
              (logging Info_scan_started w))) of
        Inl e \<Rightarrow> Inl e | Inr rows \<Rightarrow> Inr ())"
proof -
  have [simp]: "w_resolve (logging ev w) = w_resolve w" for ev w by (simp add: logging_def)
  show ?thesis
    by (simp add: scan_task_def Let_def upload_never_raises split: prod.splits sum.splits)
qed


lemma example_roots:
  "deduplicate_parent_paths (normalize_paths example_resolve [''/data/a'', ''/data/a/sub'', ''/data/b''])
     = [[''/'', ''data'', ''a''], [''/'', ''data'', ''b'']]"
proof -
  have "deduplicate_parent_paths [[''/'', ''data'', ''a''], [''/'', ''data'', ''a'', ''sub''], [''/'', ''data'', ''b'']]
      = [[''/'', ''data'', ''a''], [''/'', ''data'', ''b'']]"
    by code_simp
  then show ?thesis by (simp add: normalize_paths_def example_resolve_def)
qed

lemma strict_scan_task_raises:
  "fst (scan_task strict_config example_world) = Inl (RuntimeError (missing_path_prefix @ ''/data/b''))"
  unfolding scan_task_result
  by (simp add: strict_config_def example_config_def example_world_def logging_def example_roots
      example_lookup_def dict_get_def path_str_def Let_def)


section \<open>UploadThrottle: when an upload is attempted\<close>

lemma upload_body_ok:
  "upload_body oss_cfg latest w = Inr w' \<Longrightarrow>
   \<exists>bucket key rid. w_oss_put w bucket key (read_file latest w) = Put_ok rid
     \<and> w' = mark_oss_upload (logging (Info_uploaded key rid) w)"
  by (auto simp: upload_body_def Let_def split: sum.splits option.splits put_outcome.splits)

lemma should_upload_iff:
  "should_upload_to_oss oss_cfg w \<longleftrightarrow>
     (upload_interval_days oss_cfg = None \<or> upload_interval_days oss_cfg = Some 0
      \<or> w_marker w = Marker_absent \<or> w_marker w = Marker_unreadable
      \<or> (\<exists>d m. upload_interval_days oss_cfg = Some d \<and> w_marker w = Marker_time m
            \<and> w_now_epoch w - m \<ge> d * 86400))"
  by (auto simp: should_upload_to_oss_def split: option.splits marker_state.splits)

lemma upload_attempted_iff:
  assumes "oss cfg = Some oss_cfg" "dict_get (oss_enabled oss_cfg) False" "file_exists latest w"
  shows "upload_attempted w (snd (upload_latest_csv_to_oss cfg latest w))
         \<longleftrightarrow> should_upload_to_oss oss_cfg w"
proof (cases "should_upload_to_oss oss_cfg w")
  case False
  with assms show ?thesis
    by (simp add: upload_latest_csv_to_oss_def logging_def upload_attempted_def)
next
  case True
  show ?thesis
  proof (cases "upload_body oss_cfg latest w")
    case (Inl e)
    with assms True show ?thesis
      by (simp add: upload_latest_csv_to_oss_def logging_def upload_attempted_def)
  next
    case (Inr w')
    from upload_body_ok[OF Inr] obtain bucket key rid where
      "w' = mark_oss_upload (logging (Info_uploaded key rid) w)" by blast
    with assms True Inr show ?thesis
      by (simp add: upload_latest_csv_to_oss_def logging_def upload_attempted_def mark_oss_upload_def)
  qed
qed

lemma upload_marker:
  "w_marker (snd (upload_latest_csv_to_oss cfg latest w)) \<noteq> w_marker w \<Longrightarrow>
   (\<exists>bucket key rid. w_oss_put w bucket key (read_file latest w) = Put_ok rid
      \<and> w_log (snd (upload_latest_csv_to_oss cfg latest w)) = w_log w @ [Info_uploaded key rid])
   \<and> w_marker (snd (upload_latest_csv_to_oss cfg latest w)) = Marker_time (w_now_epoch w)"
proof -
  assume a: "w_marker (snd (upload_latest_csv_to_oss cfg latest w)) \<noteq> w_marker w"
  then obtain oss_cfg w' where o: "oss cfg = Some oss_cfg" "dict_get (oss_enabled oss_cfg) False"
    "file_exists latest w" "should_upload_to_oss oss_cfg w" "upload_body oss_cfg latest w = Inr w'"
    by (auto simp: upload_latest_csv_to_oss_def split: option.splits if_splits sum.splits)
  then have s: "snd (upload_latest_csv_to_oss cfg latest w) = w'"
    by (simp add: upload_latest_csv_to_oss_def)
  from upload_body_ok[OF o(5)] obtain bucket key rid where
    "w_oss_put w bucket key (read_file latest w) = Put_ok rid"
    "w' = mark_oss_upload (logging (Info_uploaded key rid) w)" by blast
  then show ?thesis unfolding s by (auto simp: mark_oss_upload_def logging_def)
qed

text \<open>
  Claim C8, as amended. With the upload enabled and the latest file present, an upload
  is attempted if and only if the interval is unset or zero, or the marker is absent or
  unreadable, or the time since the marker is at least the interval in days times 86400
  seconds. The marker changes only when the object store accepted the put, and then to
  the current time.
\<close>

theorem upload_throttle_decision:
  "(oss cfg = Some oss_cfg \<and> dict_get (oss_enabled oss_cfg) False \<and> file_exists latest w \<longrightarrow>
      (upload_attempted w (snd (upload_latest_csv_to_oss cfg latest w)) \<longleftrightarrow>
         (upload_interval_days oss_cfg = None \<or> upload_interval_days oss_cfg = Some 0
          \<or> w_marker w = Marker_absent \<or> w_marker w = Marker_unreadable
          \<or> (\<exists>d m. upload_interval_days oss_cfg = Some d \<and> w_marker w = Marker_time m
                \<and> w_now_epoch w - m \<ge> d * 86400))))
   \<and> (w_marker (snd (upload_latest_csv_to_oss cfg latest w)) \<noteq> w_marker w \<longrightarrow>
        (\<exists>bucket key rid. w_oss_put w bucket key (read_file latest w) = Put_ok rid
           \<and> w_log (snd (upload_latest_csv_to_oss cfg latest w)) = w_log w @ [Info_uploaded key rid])
        \<and> w_marker (snd (upload_latest_csv_to_oss cfg latest w)) = Marker_time (w_now_epoch w))"
  using upload_attempted_iff[of cfg oss_cfg latest w] should_upload_iff[of oss_cfg w]
    upload_marker[of cfg latest w]
  by blast

lemma accepting_upload:
  "snd (upload_latest_csv_to_oss example_config ''scan_latest.csv'' accepting_world)
   = accepting_world\<lparr>w_marker := Marker_time 1000000,
        w_log := [Info_uploaded ''scans/scan_latest.csv'' ''req-1'']\<rparr>"
  by (simp add: upload_latest_csv_to_oss_def example_config_def example_oss_def accepting_world_def
      example_world_def dict_get_def file_exists_def should_upload_to_oss_def upload_body_def
      subscript_def rstrip_slash_def read_file_def mark_oss_upload_def logging_def Let_def)

theorem upload_throttle_decision_witness:
  "oss example_config = Some example_oss \<and> dict_get (oss_enabled example_oss) False
   \<and> file_exists ''scan_latest.csv'' accepting_world
   \<and> upload_attempted accepting_world
        (snd (upload_latest_csv_to_oss example_config ''scan_latest.csv'' accepting_world))
   \<and> upload_interval_days example_oss = Some 7 \<and> w_marker accepting_world = Marker_time 308800
   \<and> w_now_epoch accepting_world - 308800 \<ge> 7 * 86400
   \<and> w_marker (snd (upload_latest_csv_to_oss example_config ''scan_latest.csv'' accepting_world))
       = Marker_time (w_now_epoch accepting_world)
   \<and> w_oss_put accepting_world ''bucket'' ''scans/scan_latest.csv''
       (read_file ''scan_latest.csv'' accepting_world) = Put_ok ''req-1''"
proof -
  have h: "oss example_config = Some example_oss" "dict_get (oss_enabled example_oss) False"
    "file_exists ''scan_latest.csv'' accepting_world"
    by (simp_all add: example_config_def example_oss_def dict_get_def file_exists_def
        accepting_world_def example_world_def)
  have d: "upload_interval_days example_oss = Some 7" "w_marker accepting_world = Marker_time 308800"
    "w_now_epoch accepting_world - 308800 \<ge> 7 * 86400"
    "w_oss_put accepting_world ''bucket'' ''scans/scan_latest.csv''
       (read_file ''scan_latest.csv'' accepting_world) = Put_ok ''req-1''"
    by (simp_all add: example_oss_def accepting_world_def example_world_def)
  have m: "w_marker (snd (upload_latest_csv_to_oss example_config ''scan_latest.csv'' accepting_world))
      \<noteq> w_marker accepting_world"
    unfolding accepting_upload by (simp add: accepting_world_def example_world_def)
  from upload_throttle_decision[of example_config example_oss "''scan_latest.csv''" accepting_world]
    h d m
  show ?thesis by blast
qed

text \<open>
  Claim C8, as stated, fails for an interval of zero days: with a marker that lies 100
  seconds in the future the upload is attempted, although the interval is set, the
  marker is readable and the time since the marker is less than zero seconds.
\<close>

theorem upload_zero_interval_counterexample:
  "oss zero_interval_config = Some (example_oss\<lparr>upload_interval_days := Some 0\<rparr>)
   \<and> dict_get (oss_enabled (example_oss\<lparr>upload_interval_days := Some 0\<rparr>)) False
   \<and> file_exists ''scan_latest.csv'' zero_interval_world
   \<and> upload_attempted zero_interval_world
        (snd (upload_latest_csv_to_oss zero_interval_config ''scan_latest.csv'' zero_interval_world))
   \<and> upload_interval_days (example_oss\<lparr>upload_interval_days := Some 0\<rparr>) = Some 0
   \<and> w_marker zero_interval_world = Marker_time 1000100
   \<and> \<not> (w_now_epoch zero_interval_world - 1000100 \<ge> 0 * 86400)"
  by (simp add: zero_interval_config_def zero_interval_world_def example_config_def example_oss_def
      example_world_def dict_get_def file_exists_def upload_latest_csv_to_oss_def
      should_upload_to_oss_def upload_body_def subscript_def rstrip_slash_def read_file_def
      logging_def upload_attempted_def Let_def)

section \<open>Upload failures stay inside the upload\<close>



lemma run_action_never_raises: "fst (run_action name fn job_id a) = Inr ()"
  by (simp add: run_action_def run_action_finish_def split: prod.splits sum.splits)

lemma run_action_job:
  "app_jobs (snd (run_action name fn job_id a)) job_id =
     Some \<lparr>j_id = job_id, j_action = name,
           j_status = (case fst (fn (app_world a)) of Inr u \<Rightarrow> ''success'' | Inl exc \<Rightarrow> ''error''),
           j_error = (case fst (fn (app_world a)) of Inr u \<Rightarrow> [] | Inl exc \<Rightarrow> error_message exc),
           j_updated_at = w_now_epoch (snd (fn (app_world a)))\<rparr>"
  by (simp add: run_action_def run_action_finish_def run_action_begin_def record_job_def logging_def
      split: prod.splits sum.splits)




section \<open>The executor and the three trigger paths\<close>

lemma scheduled_job_jobs: "app_jobs (snd (scheduled_job cfg a)) = app_jobs a"
  by (simp add: scheduled_job_def split: prod.splits)

lemma scheduled_job_result: "fst (scheduled_job cfg a) = fst (scan_task cfg (app_world a))"
  by (simp add: scheduled_job_def split: prod.splits)

lemma http_trigger_never_raises:
  "t \<noteq> Scheduled \<Longrightarrow> fst (run_trigger cfg t job_id a) = Inr ()"
  by (cases t) (simp_all add: run_trigger_def run_action_never_raises split: option.splits)

text \<open>
  Claim C3. On the two HTTP paths \<open>run_action\<close> catches the exception of the
  action and records it on the job. The scheduler's job is \<open>scan_task\<close> itself: with
  \<open>ignore_missing_path\<close> set to \<open>false\<close> and the root \<open>/data/b\<close> missing, the
  \<open>RuntimeError\<close> of the scheduled run reaches the scheduler and no job is recorded,
  while the same run triggered over HTTP returns normally with the job in status
  \<open>error\<close> and the message of the exception.
\<close>

theorem scheduled_scan_failure_escapes:
  "fst (run_trigger strict_config Scheduled ''job-1'' example_app)
     = Inl (RuntimeError (missing_path_prefix @ ''/data/b''))
   \<and> app_jobs (snd (run_trigger strict_config Scheduled ''job-1'' example_app)) ''job-1'' = None
   \<and> fst (run_trigger strict_config (Http_sync ''scan'') ''job-1'' example_app) = Inr ()
   \<and> map_option j_status
        (app_jobs (snd (run_trigger strict_config (Http_sync ''scan'') ''job-1'' example_app)) ''job-1'')
       = Some ''error''
   \<and> map_option j_error
        (app_jobs (snd (run_trigger strict_config (Http_sync ''scan'') ''job-1'' example_app)) ''job-1'')
       = Some (missing_path_prefix @ ''/data/b'')"
proof -
  have w: "app_world example_app = example_world" by (simp add: example_app_def)
  have 1: "fst (run_trigger strict_config Scheduled ''job-1'' example_app)
     = Inl (RuntimeError (missing_path_prefix @ ''/data/b''))"
    by (simp add: run_trigger_def scheduled_job_result w strict_scan_task_raises)
  have 2: "app_jobs (snd (run_trigger strict_config Scheduled ''job-1'' example_app)) ''job-1'' = None"
    by (simp add: run_trigger_def scheduled_job_jobs) (simp add: example_app_def)
  have r: "run_trigger strict_config (Http_sync ''scan'') ''job-1'' example_app
      = run_action ''scan'' (action_scan strict_config) ''job-1'' example_app"
    by (simp add: run_trigger_def ACTIONS_def)
  have 3: "fst (run_trigger strict_config (Http_sync ''scan'') ''job-1'' example_app) = Inr ()"
    unfolding r by (rule run_action_never_raises)
  have 4: "app_jobs (snd (run_trigger strict_config (Http_sync ''scan'') ''job-1'' example_app)) ''job-1''
      = Some \<lparr>j_id = ''job-1'', j_action = ''scan'', j_status = ''error'',
           j_error = missing_path_prefix @ ''/data/b'',
           j_updated_at = w_now_epoch (snd (action_scan strict_config example_world))\<rparr>"
    unfolding r run_action_job by (simp add: w action_scan_def strict_scan_task_raises)
  from 1 2 3 4 show ?thesis by simp
qed

section \<open>The status of a job under asynchronous dispatch\<close>

text \<open>
  Run alone, as in the synchronous branch, \<open>run_action\<close> takes the job through
  \<open>running\<close> to \<open>success\<close> or \<open>error\<close>; when the handler's step comes first, the
  history starts with \<open>queued\<close>; when it comes last, the history ends with it.
\<close>

lemma run_action_status_history:
  "status_history name fn job_id thread_steps a =
     [''running'', (case fst (fn (app_world a)) of Inr u \<Rightarrow> ''success'' | Inl exc \<Rightarrow> ''error'')]"
  by (simp add: thread_steps_def Let_def run_action_begin_def run_action_finish_def record_job_def
      split: prod.splits sum.splits)

lemma queued_first_status_history:
  "status_history name fn job_id (handler_steps @ thread_steps) a =
     [''queued'', ''running'',
      (case fst (fn (app_world a)) of Inr u \<Rightarrow> ''success'' | Inl exc \<Rightarrow> ''error'')]"
  by (simp add: thread_steps_def handler_steps_def Let_def run_action_begin_def
      run_action_finish_def record_job_def split: prod.splits sum.splits)

lemma queued_last_status_history:
  "status_history name fn job_id (thread_steps @ handler_steps) a =
     [''running'', (case fst (fn (app_world a)) of Inr u \<Rightarrow> ''success'' | Inl exc \<Rightarrow> ''error''),
      ''queued'']"
  by (simp add: thread_steps_def handler_steps_def Let_def run_action_begin_def
      run_action_finish_def record_job_def split: prod.splits sum.splits)

lemma example_cleanup_ok: "fst (action_cleanup example_config w) = Inr ()"
  by (simp add: action_cleanup_def example_config_def)

text \<open>
  Claim C2. The handler records \<open>queued\<close> after it has started the thread. In the
  schedule where the thread finishes first, the job of a clean-up goes through
  \<open>running\<close> and \<open>success\<close> and is then set back to \<open>queued\<close>, where it stays.
\<close>

theorem async_queued_overwrites_terminal:
  "[Thread_run_action_begin, Thread_run_action_finish, Handler_record_queued] \<in> async_schedules
   \<and> status_history ''cleanup'' (action_cleanup example_config) ''job-1''
        [Thread_run_action_begin, Thread_run_action_finish, Handler_record_queued] example_app
       = [''running'', ''success'', ''queued'']"
proof -
  have s: "[Thread_run_action_begin, Thread_run_action_finish, Handler_record_queued] \<in> async_schedules"
    by (simp add: async_schedules_def handler_steps_def thread_steps_def)
  obtain w' where c: "action_cleanup example_config example_world = (Inr (), w')"
    using example_cleanup_ok[of example_world]
    by (cases "action_cleanup example_config example_world") auto
  have h: "status_history ''cleanup'' (action_cleanup example_config) ''job-1''
        [Thread_run_action_begin, Thread_run_action_finish, Handler_record_queued] example_app
       = [''running'', ''success'', ''queued'']"
    by (simp add: Let_def run_action_begin_def run_action_finish_def record_job_def example_app_def c)
  from s h show ?thesis by simp
qed

section \<open>The scan lock\<close>

lemma filter_update_length:
  "i < length ts \<Longrightarrow>
   length (filter P (ts[i := t'])) + (if P (ts ! i) then 1 else 0)
     = length (filter P ts) + (if P t' then 1 else 0)"
proof (induction ts arbitrary: i)
  case Nil
  then show ?case by simp
next
  case (Cons t ts)
  show ?case
  proof (cases i)
    case 0
    then show ?thesis by simp
  next
    case (Suc j)
    with Cons.prems have "j < length ts" by simp
    from Cons.IH[OF this] Suc show ?thesis by simp
  qed
qed

lemma filter_length_mono:
  "(\<And>t. t \<in> set ts \<Longrightarrow> P t \<Longrightarrow> Q t) \<Longrightarrow> length (filter P ts) \<le> length (filter Q ts)"
  by (induction ts) auto

lemma thread_step_invariant:
  assumes inv: "lock_invariant (held, ts)" and i: "i < length ts"
    and st: "thread_step held (ts ! i) = Some (held', t')"
  shows "lock_invariant (held', ts[i := t'])"
proof -
  from inv have all: "list_all locked_scan_state ts"
    and cnt: "length (filter holds_lock ts) = (if held then 1 else 0)"
    by (simp_all add: lock_invariant_def)
  from all i have v: "locked_scan_state (ts ! i)" by (simp add: list_all_length)
  have pos: "holds_lock (ts ! i) \<Longrightarrow> held"
  proof -
    assume h: "holds_lock (ts ! i)"
    from i have "ts ! i \<in> set ts" by simp
    with h have "filter holds_lock ts \<noteq> []" by (auto simp: filter_empty_conv)
    then have "length (filter holds_lock ts) \<noteq> 0" by simp
    with cnt show held by (simp split: if_splits)
  qed
  note upd = filter_update_length[OF i, of holds_lock t']
  from v consider
      (idle) "ts ! i = (action_scan_ops, False)"
    | (h1) "ts ! i = ([Scan_task_enter, Scan_task_exit, Release], False)"
    | (h2) "ts ! i = ([Scan_task_exit, Release], True)"
    | (h3) "ts ! i = ([Release], False)"
    | (fin) "ts ! i = ([], False)"
    by (auto simp: locked_scan_state_def)
  then have "locked_scan_state t' \<and> length (filter holds_lock (ts[i := t'])) = (if held' then 1 else 0)"
  proof cases
    case idle
    with st have e: "\<not> held" "held' = True" "t' = ([Scan_task_enter, Scan_task_exit, Release], False)"
      by (auto simp: action_scan_ops_def split: if_splits)
    with idle upd cnt show ?thesis
      by (simp add: locked_scan_state_def holds_lock_def action_scan_ops_def)
  next
    case h1
    with st have e: "held' = held" "t' = ([Scan_task_exit, Release], True)" by auto
    from h1 pos have held by (simp add: holds_lock_def)
    with e h1 upd cnt show ?thesis by (simp add: locked_scan_state_def holds_lock_def)
  next
    case h2
    with st have e: "held' = held" "t' = ([Release], False)" by auto
    from h2 pos have held by (simp add: holds_lock_def)
    with e h2 upd cnt show ?thesis by (simp add: locked_scan_state_def holds_lock_def)
  next
    case h3
    with st have e: "held' = False" "t' = ([], False)" by auto
    from h3 pos have held by (simp add: holds_lock_def)
    with e h3 upd cnt show ?thesis by (simp add: locked_scan_state_def holds_lock_def)
  next
    case fin
    with st show ?thesis by simp
  qed
  moreover from all have "list_all locked_scan_state (ts[i := t'])" if "locked_scan_state t'"
    using that by (auto simp: list_all_iff dest: set_update_subset_insert[THEN subsetD])
  ultimately show ?thesis by (simp add: lock_invariant_def)
qed

lemma run_schedule_invariant:
  "run_schedule sched s = Some s' \<Longrightarrow> lock_invariant s \<Longrightarrow> lock_invariant s'"
proof (induction sched arbitrary: s)
  case Nil
  then show ?case by simp
next
  case (Cons i sched)
  obtain held ts where s: "s = (held, ts)" by (cases s)
  from Cons.prems(1) s have i: "i < length ts" by (simp split: if_splits)
  with Cons.prems(1) s obtain held' t' where
    st: "thread_step held (ts ! i) = Some (held', t')"
    and r: "run_schedule sched (held', ts[i := t']) = Some s'"
    by (auto split: option.splits)
  from Cons.prems(2) s have "lock_invariant (held, ts)" by simp
  from thread_step_invariant[OF this i st] have "lock_invariant (held', ts[i := t'])" .
  with r show ?case by (rule Cons.IH)
qed

lemma start_threads_invariant:
  "Scheduled \<notin> set triggers \<Longrightarrow> lock_invariant (start_threads triggers)"
proof -
  assume a: "Scheduled \<notin> set triggers"
  have v: "locked_scan_state (trigger_ops t, False)" if "t \<noteq> Scheduled" for t
    using that by (cases t) (auto simp: locked_scan_state_def)
  have h: "\<not> holds_lock (trigger_ops t, False)" if "t \<noteq> Scheduled" for t
    using that by (cases t) (auto simp: holds_lock_def action_scan_ops_def)
  from a have ns: "t \<noteq> Scheduled" if "t \<in> set triggers" for t
    using that by auto
  have "list_all locked_scan_state (map (\<lambda>t. (trigger_ops t, False)) triggers)"
    using v[OF ns] by (simp add: list_all_iff)
  moreover have "filter holds_lock (map (\<lambda>t. (trigger_ops t, False)) triggers) = []"
    using h[OF ns] by (simp add: filter_empty_conv)
  ultimately show ?thesis by (simp add: lock_invariant_def start_threads_def)
qed

text \<open>
  Among scans triggered over HTTP the lock works: in every state that a schedule
  reaches, at most one thread is inside \<open>scan_task\<close>.
\<close>

lemma http_scans_mutually_exclusive:
  assumes "Scheduled \<notin> set triggers" "run_schedule sched (start_threads triggers) = Some s"
  shows "inside_scan_task s \<le> 1"
proof -
  from assms have inv: "lock_invariant s"
    using run_schedule_invariant start_threads_invariant by blast
  have "length (filter snd (snd s)) \<le> length (filter holds_lock (snd s))"
  proof (rule filter_length_mono)
    fix t assume "t \<in> set (snd s)" "snd t"
    with inv have "locked_scan_state t" by (auto simp: lock_invariant_def list_all_iff)
    with \<open>snd t\<close> show "holds_lock t" by (auto simp: locked_scan_state_def holds_lock_def)
  qed
  with inv show ?thesis by (simp add: lock_invariant_def inside_scan_task_def split: if_splits)
qed

text \<open>
  Claim C1. The scheduler's job does not take the lock. After an HTTP scan has taken
  the lock and entered \<open>scan_task\<close>, a scheduled run enters \<open>scan_task\<close> as well:
  two threads are inside the pipeline at once.
\<close>

theorem scheduled_scan_overlaps_locked_scan:
  "run_schedule [0, 0, 1] (start_threads [Http_async ''scan'', Scheduled])
     = Some (True, [([Scan_task_exit, Release], True), ([Scan_task_exit], True)])
   \<and> inside_scan_task (True, [([Scan_task_exit, Release], True), ([Scan_task_exit], True)]) = 2"
  by (simp add: start_threads_def action_scan_ops_def scheduled_job_ops_def inside_scan_task_def)

end
